theory Spec2Isabelle
  imports Main
begin

section \<open>JavaScript strings\<close>

text \<open>
  A JavaScript string is a sequence of UTF-16 code units; \<open>length\<close> counts code units.
  String literals of the source are written with \<open>js\<close>; the one letter outside Basic
  Latin that the pattern tables use (o with acute accent) is code unit 243.
\<close>

type_synonym jsstring = "nat list"

definition js :: "string \<Rightarrow> jsstring" where
  "js s = map of_char s"

text \<open>\<^verbatim>\<open>s.startsWith(p)\<close>, \<^verbatim>\<open>s.endsWith(p)\<close> and \<^verbatim>\<open>s.includes(p)\<close>.\<close>

fun startsWith :: "jsstring \<Rightarrow> jsstring \<Rightarrow> bool" where
  "startsWith s [] = True"
| "startsWith [] (p # ps) = False"
| "startsWith (c # cs) (p # ps) = (c = p \<and> startsWith cs ps)"

definition endsWith :: "jsstring \<Rightarrow> jsstring \<Rightarrow> bool" where
  "endsWith s p = startsWith (rev s) (rev p)"

fun str_includes :: "jsstring \<Rightarrow> jsstring \<Rightarrow> bool" where
  "str_includes [] p = (p = [])"
| "str_includes (c # cs) p = (startsWith (c # cs) p \<or> str_includes cs p)"

text \<open>
  \<^verbatim>\<open>s.lastIndexOf(c)\<close> for a one-character needle: the last index holding \<open>c\<close>, or -1.
  \<^verbatim>\<open>s.substring(i)\<close> clamps a negative start to 0 and a start beyond the end to the length.
\<close>

fun lastIndexOf_from :: "jsstring \<Rightarrow> nat \<Rightarrow> int \<Rightarrow> int \<Rightarrow> int" where
  "lastIndexOf_from [] c i found = found"
| "lastIndexOf_from (x # xs) c i found =
     lastIndexOf_from xs c (i + 1) (if x = c then i else found)"

definition lastIndexOf :: "jsstring \<Rightarrow> nat \<Rightarrow> int" where
  "lastIndexOf s c = lastIndexOf_from s c 0 (- 1)"

definition substring :: "jsstring \<Rightarrow> int \<Rightarrow> jsstring" where
  "substring s i = drop (nat (max 0 i)) s"

text \<open>
  \<^verbatim>\<open>s.trim()\<close> removes the WhiteSpace and LineTerminator code units of ECMAScript from
  both ends.
\<close>

definition isWhiteSpace :: "nat \<Rightarrow> bool" where
  "isWhiteSpace c \<longleftrightarrow>
     c \<in> {9, 10, 11, 12, 13, 32, 160, 5760, 8232, 8233, 8239, 8287, 12288, 65279}
     \<or> (8192 \<le> c \<and> c \<le> 8202)"

definition trim :: "jsstring \<Rightarrow> jsstring" where
  "trim s = rev (dropWhile isWhiteSpace (rev (dropWhile isWhiteSpace s)))"

text \<open>
  The lower-casing of Basic Latin letters. \<^verbatim>\<open>String.prototype.toLowerCase\<close> itself follows
  the Unicode case tables, which are not part of the repository: the program is
  modelled over an arbitrary \<open>toLowerCase\<close> (a field of \<open>env\<close> below), and \<open>asciiLower\<close>,
  which agrees with it on Basic Latin strings, is what the examples evaluate.
\<close>

definition asciiLower :: "jsstring \<Rightarrow> jsstring" where
  "asciiLower s = map (\<lambda>c. if 65 \<le> c \<and> c \<le> 90 then c + 32 else c) s"

section \<open>The environment of the services\<close>

text \<open>
  The value handed to the classifier is whatever the WHOIS transport resolved with.
  The classifier looks at it through \<^verbatim>\<open>!data\<close> and through
  \<^verbatim>\<open>JSON.stringify(data).toLowerCase()\<close> only, so a response is one of: a falsy value
  (null, undefined, the empty string, ...); a truthy value together with the string
  \<^verbatim>\<open>JSON.stringify\<close> returns for it; a truthy value on which that expression throws
  (a circular object, or a value that \<^verbatim>\<open>JSON.stringify\<close> maps to undefined), together
  with the message of the exception.
\<close>

datatype whois_data = Falsy | Serialized jsstring | Unserializable jsstring

record whois_config =
  timeout :: nat
  follow :: nat

text \<open>
  A JavaScript value, as far as the services look at it: they copy it and they test
  whether it is truthy. It is undefined (a missing property), null, a boolean, or
  another value (a number, a string, an array, an object), which is represented by
  whether it is truthy and by its JSON text.
\<close>

datatype jsvalue = JUndefined | JNull | JBool bool | JOther bool jsstring

fun truthy :: "jsvalue \<Rightarrow> bool" where
  "truthy JUndefined = False"
| "truthy JNull = False"
| "truthy (JBool b) = b"
| "truthy (JOther t text) = t"

text \<open>
  The payload of the registrar API (\<^verbatim>\<open>response.data\<close>). The service reads
  \<^verbatim>\<open>data.available\<close> as it comes, without a test of its type: the flag is any
  JavaScript value. A missing or null price, currency or period is \<open>None\<close>.
\<close>

record api_data =
  api_available :: jsvalue
  api_price :: "int option"
  api_currency :: "jsstring option"
  api_period :: "int option"

text \<open>
  What \<^verbatim>\<open>axios.get\<close> does: it resolves with a payload, rejects with an HTTP response
  (\<^verbatim>\<open>error.response.status\<close>) and a message, or rejects without a response (a network
  failure); \<^verbatim>\<open>error.message\<close> may be empty.
\<close>

datatype api_reply = ApiOk api_data | ApiHttpError nat jsstring | ApiFailure jsstring

text \<open>
  The collaborators and configuration. Both transports answer a call made at a given
  instant with an outcome and the time the call took (milliseconds). An exception is
  represented by its message, the only part of it the program reads. \<open>cacheTTL\<close> and
  \<open>whoisTimeout\<close> are the values of config.js (86400000 unless the process environment
  sets another, and 10000).
\<close>

record env =
  toLowerCase :: "jsstring \<Rightarrow> jsstring"
  toISOString :: "int \<Rightarrow> jsstring"
  toFixed2 :: "nat \<Rightarrow> nat \<Rightarrow> jsstring"
  whois :: "int \<Rightarrow> jsstring \<Rightarrow> whois_config \<Rightarrow> (jsstring + whois_data) \<times> int"
  axios_get :: "int \<Rightarrow> jsstring \<Rightarrow> api_reply \<times> int"
  cacheTTL :: int
  whoisTimeout :: nat

section \<open>Response classifier (whois.service.js)\<close>

definition strongRegisteredPatterns :: "jsstring list" where
  "strongRegisteredPatterns =
    [js ''registrar:'',
     js ''registrar url:'',
     js ''registrar iana id:'',
     js ''creation date:'',
     js ''created on:'',
     js ''created:'',
     js ''registered on:'',
     js ''registered:'',
     js ''registration date:'',
     js ''domain status: clienttransferprohibited'',
     js ''domain status: active'',
     js ''status: active'',
     js ''status: registered'',
     js ''nameserver:'',
     js ''name server:'',
     js ''nserver:'',
     js ''dns:'',
     js ''registrant organization:'',
     js ''registrant name:'',
     js ''registrant:'',
     js ''admin contact:'',
     js ''admin email:'',
     js ''technical contact:'',
     js ''tech email:'',
     js ''expiration date:'',
     js ''expiry date:'',
     js ''expires on:'',
     js ''expires:'',
     js ''updated date:'',
     js ''last updated:'',
     js ''registry expiry date:'',
     js ''dnssec:'',
     js ''whois server:'']"

definition availablePatterns :: "jsstring list" where
  "availablePatterns =
    [js ''no match for'',
     js ''no match'',
     js ''not found'',
     js ''no entries found'',
     js ''no data found'',
     js ''status: available'',
     js ''status: free'',
     js ''available for registration'',
     js ''is available'',
     js ''no se encontr'' @ [243],
     js ''not registered'',
     js ''no existe'',
     js ''disponible para'',
     js ''domain not found'',
     js ''no object found'',
     js ''no matching record'',
     js ''no information available'',
     js ''domain name not known'']"

text \<open>
  The counting loop over \<open>strongRegisteredPatterns\<close>. \<open>None\<close> is the \<^verbatim>\<open>return false\<close>
  inside the loop, taken as soon as the count reaches 2; \<open>Some n\<close> is the loop running to
  its end with \<^verbatim>\<open>registeredPatternCount = n\<close>.
\<close>

fun countRegistered :: "jsstring list \<Rightarrow> jsstring \<Rightarrow> nat \<Rightarrow> nat option" where
  "countRegistered [] dataStr n = Some n"
| "countRegistered (pattern # rest) dataStr n =
     (if str_includes dataStr pattern
      then (if n + 1 \<ge> 2 then None else countRegistered rest dataStr (n + 1))
      else countRegistered rest dataStr n)"

text \<open>
  \<open>isDomainAvailable\<close>; its second parameter, the domain, is only written to the console.
  \<open>Inl\<close> is the exception that serialising the response throws.
\<close>

fun isDomainAvailable :: "env \<Rightarrow> whois_data \<Rightarrow> jsstring + bool" where
  "isDomainAvailable E Falsy = Inr True"
| "isDomainAvailable E (Unserializable message) = Inl message"
| "isDomainAvailable E (Serialized text) =
     (let dataStr = toLowerCase E text in
      if length dataStr < 50 then Inr True
      else case countRegistered strongRegisteredPatterns dataStr 0 of
             None \<Rightarrow> Inr False
           | Some registeredPatternCount \<Rightarrow>
               if registeredPatternCount \<ge> 1 then Inr False
               else if list_ex (str_includes dataStr) availablePatterns then Inr True
               else if length dataStr < 200 then Inr True
               else Inr False)"

section \<open>Error classification (whois.service.js)\<close>

definition notFoundPatterns :: "jsstring list" where
  "notFoundPatterns =
    [js ''no match'',
     js ''not found'',
     js ''no entries found'',
     js ''no data found'',
     js ''no se encontr'' @ [243],
     js ''domain not found'']"

definition isNotFoundError :: "env \<Rightarrow> jsstring \<Rightarrow> bool" where
  "isNotFoundError E errorMessage =
     (let errorLower = toLowerCase E errorMessage
      in list_ex (\<lambda>pattern. str_includes errorLower pattern) notFoundPatterns)"

definition timeoutPatterns :: "jsstring list" where
  "timeoutPatterns =
    [js ''timeout'',
     js ''timed out'',
     js ''econnrefused'',
     js ''enotfound'',
     js ''etimedout'',
     js ''connection'',
     js ''socket hang up'',
     js ''network'']"

definition isTimeoutOrConnectionError :: "env \<Rightarrow> jsstring \<Rightarrow> bool" where
  "isTimeoutOrConnectionError E errorMessage =
     (let errorLower = toLowerCase E errorMessage
      in list_ex (\<lambda>pattern. str_includes errorLower pattern) timeoutPatterns)"

definition problematicTLDs :: "jsstring list" where
  "problematicTLDs = [js ''.app'', js ''.dev'', js ''.page'', js ''.new'']"

text \<open>The message of the error thrown for a problematic TLD (a template literal).\<close>

definition manualVerificationMessage :: "jsstring \<Rightarrow> jsstring" where
  "manualVerificationMessage extension =
     js ''El TLD '' @ extension @ js '' requiere verificaci'' @ [243] @
     js ''n manual. WHOIS no disponible para esta extensi'' @ [243] @ js ''n.''"

section \<open>Serial query scheduler (rateLimiter.js)\<close>

text \<open>
  \<open>processQueue\<close> is an asynchronous method: it runs without interruption from one
  \<^verbatim>\<open>await\<close> to the next, and other code (further calls of \<open>add\<close>) runs while it is
  suspended. The model is the state machine of those uninterrupted runs. A queued
  object \<^verbatim>\<open>{task, resolve, reject}\<close> is represented by a ticket, the identity of the
  promise that \<open>add\<close> returned for it. \<open>phase\<close> says where \<open>processQueue\<close> is suspended:
  nowhere, at \<^verbatim>\<open>await task()\<close> for a ticket, or at \<^verbatim>\<open>await this.sleep(this.delay)\<close>.
  \<open>trace\<close> records what the scheduler did: it called a task, it resolved or rejected
  a ticket's promise, it started a sleep of so many milliseconds.
\<close>

datatype 'r event = Started nat | Resolved nat 'r | Rejected nat jsstring | SleepStarted nat

datatype phase = Idle | Running nat | Sleeping

record 'r limiter =
  delay :: nat
  queue :: "nat list"
  processing :: bool
  phase :: phase
  trace :: "'r event list"

text \<open>
  What the environment does to the scheduler: a caller submits a task; the promise of
  the running task settles, with an exception or a result; the timer of a sleep fires.
\<close>

datatype 'r input = Add nat | Settled "jsstring + 'r" | TimerFired

text \<open>
  The test of \<^verbatim>\<open>while (this.queue.length > 0)\<close> and, inside the loop, the code up to
  \<^verbatim>\<open>await task()\<close>; after the loop, \<^verbatim>\<open>this.processing = false\<close>.
\<close>

definition loop_head :: "'r limiter \<Rightarrow> 'r limiter" where
  "loop_head L =
     (case queue L of
        [] \<Rightarrow> L\<lparr>processing := False, phase := Idle\<rparr>
      | t # rest \<Rightarrow> L\<lparr>queue := rest, phase := Running t, trace := trace L @ [Started t]\<rparr>)"

text \<open>A call of \<open>processQueue\<close>, up to its first \<^verbatim>\<open>await\<close>.\<close>

definition processQueue :: "'r limiter \<Rightarrow> 'r limiter" where
  "processQueue L =
     (if processing L \<or> length (queue L) = 0 then L
      else loop_head (L\<lparr>processing := True\<rparr>))"

definition add :: "nat \<Rightarrow> 'r limiter \<Rightarrow> 'r limiter" where
  "add t L = processQueue (L\<lparr>queue := queue L @ [t]\<rparr>)"

text \<open>
  \<open>processQueue\<close> resumes after \<^verbatim>\<open>await task()\<close>: \<^verbatim>\<open>resolve(result)\<close> or
  \<^verbatim>\<open>reject(error)\<close>, then the sleep if the queue is not empty, else the loop test.
\<close>

definition task_settled :: "jsstring + 'r \<Rightarrow> 'r limiter \<Rightarrow> 'r limiter" where
  "task_settled outcome L =
     (case phase L of
        Running t \<Rightarrow>
          (let L1 = L\<lparr>trace := trace L @
                     [case outcome of Inr result \<Rightarrow> Resolved t result
                                    | Inl err \<Rightarrow> Rejected t err]\<rparr>
           in if length (queue L1) > 0
              then L1\<lparr>phase := Sleeping, trace := trace L1 @ [SleepStarted (delay L1)]\<rparr>
              else loop_head L1)
      | _ \<Rightarrow> L)"

text \<open>\<open>processQueue\<close> resumes after the sleep, at the loop test.\<close>

definition timer_fired :: "'r limiter \<Rightarrow> 'r limiter" where
  "timer_fired L = (case phase L of Sleeping \<Rightarrow> loop_head L | _ \<Rightarrow> L)"

fun rl_step :: "'r limiter \<Rightarrow> 'r input \<Rightarrow> 'r limiter" where
  "rl_step L (Add t) = add t L"
| "rl_step L (Settled outcome) = task_settled outcome L"
| "rl_step L TimerFired = timer_fired L"

definition rl_run :: "'r limiter \<Rightarrow> 'r input list \<Rightarrow> 'r limiter" where
  "rl_run L inputs = foldl rl_step L inputs"

text \<open>The scheduler as its constructor leaves it.\<close>

definition new_limiter :: "nat \<Rightarrow> 'r limiter" where
  "new_limiter delayMs =
     \<lparr>delay = delayMs, queue = [], processing = False, phase = Idle, trace = []\<rparr>"

text \<open>Readings of a trace and of an input sequence, used to state the properties.\<close>

fun started :: "'r event list \<Rightarrow> nat list" where
  "started [] = []"
| "started (Started t # es) = t # started es"
| "started (e # es) = started es"

fun settled_tickets :: "'r event list \<Rightarrow> nat list" where
  "settled_tickets [] = []"
| "settled_tickets (Resolved t r # es) = t # settled_tickets es"
| "settled_tickets (Rejected t m # es) = t # settled_tickets es"
| "settled_tickets (e # es) = settled_tickets es"

fun added :: "'r input list \<Rightarrow> nat list" where
  "added [] = []"
| "added (Add t # xs) = t # added xs"
| "added (x # xs) = added xs"

text \<open>
  A trace is serial when it starts with the call of a task and every event is followed
  by one that may follow it: the call of a task by the settling of that task's own
  promise, a settling by a sleep or by the next call, a sleep by the next call.
\<close>

fun may_follow :: "'r event \<Rightarrow> 'r event \<Rightarrow> bool" where
  "may_follow (Started t) (Resolved t' r) = (t = t')"
| "may_follow (Started t) (Rejected t' m) = (t = t')"
| "may_follow (Resolved t r) (SleepStarted d) = True"
| "may_follow (Resolved t r) (Started t') = True"
| "may_follow (Rejected t m) (SleepStarted d) = True"
| "may_follow (Rejected t m) (Started t') = True"
| "may_follow (SleepStarted d) (Started t') = True"
| "may_follow e e' = False"

fun is_call :: "'r event \<Rightarrow> bool" where
  "is_call (Started t) = True"
| "is_call e = False"

fun is_settling :: "'r event \<Rightarrow> bool" where
  "is_settling (Resolved t r) = True"
| "is_settling (Rejected t m) = True"
| "is_settling e = False"

fun is_sleep :: "'r event \<Rightarrow> bool" where
  "is_sleep (SleepStarted d) = True"
| "is_sleep e = False"

definition serial :: "'r event list \<Rightarrow> bool" where
  "serial es \<longleftrightarrow> (es = [] \<or> is_call (hd es)) \<and> successively may_follow es"

text \<open>
  Draining a queue: the inputs that let the running task and then every queued task
  finish with the given outcomes (a timer between two tasks), and the events the
  scheduler is expected to record for the tickets: each settled with its own outcome,
  a sleep and the next call between two tasks, nothing after the last.
\<close>

fun drain_inputs :: "(jsstring + 'r) list \<Rightarrow> 'r input list" where
  "drain_inputs [] = []"
| "drain_inputs [outcome] = [Settled outcome]"
| "drain_inputs (outcome # outcomes) = Settled outcome # TimerFired # drain_inputs outcomes"

definition settle_event :: "nat \<Rightarrow> jsstring + 'r \<Rightarrow> 'r event" where
  "settle_event t outcome =
     (case outcome of Inr result \<Rightarrow> Resolved t result | Inl err \<Rightarrow> Rejected t err)"

fun drain_trace :: "nat \<Rightarrow> nat list \<Rightarrow> (jsstring + 'r) list \<Rightarrow> 'r event list" where
  "drain_trace d [t] [outcome] = [settle_event t outcome]"
| "drain_trace d (t # t' # ts) (outcome # outcomes) =
     settle_event t outcome # SleepStarted d # Started t' #
     drain_trace d (t' # ts) outcomes"
| "drain_trace d ts outcomes = []"

section \<open>Resolution results and the cache (cache.service.js)\<close>

datatype status = Available | Registered | Error

text \<open>The fields that only the registrar-API service writes on a successful check.\<close>

record pricing =
  price :: "int option"
  currency :: jsstring
  period :: int

text \<open>
  The result object of both services. \<open>available\<close> is a JavaScript value: the WHOIS
  service writes true, false or null, the registrar-API service copies the flag of the
  payload;
  \<open>error\<close>, \<open>provider\<close> and \<open>pricing\<close> are \<open>None\<close> where the object has no such key.
\<close>

record resolution =
  domain :: jsstring
  available :: jsvalue
  status :: status
  error :: "jsstring option"
  responseTime :: int
  fromCache :: bool
  checkedAt :: jsstring
  provider :: "jsstring option"
  pricing :: "pricing option"

record cache_entry =
  entry_value :: resolution
  expiry :: int
  createdAt :: int

text \<open>What \<open>performWhoisLookup\<close> returns: \<^verbatim>\<open>{ available, data }\<close>.\<close>

record lookup =
  lookup_available :: bool
  lookup_data :: whois_data

text \<open>
  The state the services share and act on: the clock (\<^verbatim>\<open>Date.now()\<close>), the map of the
  cache singleton, the scheduler singleton, and a record of the calls made so far: how
  many promises \<open>rateLimiter.add\<close> has created, which WHOIS queries and which API
  requests were issued.
\<close>

record world =
  clock :: int
  cache :: "jsstring \<Rightarrow> cache_entry option"
  limiter :: "lookup limiter"
  submitted :: nat
  whois_calls :: "(jsstring \<times> whois_config) list"
  api_calls :: "jsstring list"

definition cache_get :: "jsstring \<Rightarrow> world \<Rightarrow> resolution option \<times> world" where
  "cache_get key w =
     (case cache w key of
        None \<Rightarrow> (None, w)
      | Some item \<Rightarrow>
          if clock w > expiry item then (None, w\<lparr>cache := (cache w)(key := None)\<rparr>)
          else (Some (entry_value item), w))"

definition cache_set :: "env \<Rightarrow> jsstring \<Rightarrow> resolution \<Rightarrow> world \<Rightarrow> world" where
  "cache_set E key v w =
     (let ttl = cacheTTL E;
          expiresAt = clock w + ttl
      in w\<lparr>cache := (cache w)(key \<mapsto>
                    \<lparr>entry_value = v, expiry = expiresAt, createdAt = clock w\<rparr>)\<rparr>)"

definition cache_clear :: "world \<Rightarrow> world" where
  "cache_clear w = w\<lparr>cache := Map.empty\<rparr>"

definition cleanExpired :: "world \<Rightarrow> world" where
  "cleanExpired w =
     (let now = clock w
      in w\<lparr>cache := (\<lambda>key. case cache w key of
                              None \<Rightarrow> None
                            | Some item \<Rightarrow> if now > expiry item then None else Some item)\<rparr>)"

section \<open>WHOIS resolution service (whois.service.js)\<close>

text \<open>
  \<open>performWhoisLookup\<close>, run from its call to its completion: the query is issued, the
  clock advances by the time it took, and the outcome goes through the \<^verbatim>\<open>try\<close> block
  (the classifier) or the \<^verbatim>\<open>catch\<close> block. \<open>Inl\<close> is the exception the method throws.
\<close>

definition performWhoisLookup :: "env \<Rightarrow> jsstring \<Rightarrow> world \<Rightarrow> (jsstring + lookup) \<times> world" where
  "performWhoisLookup E domainName w =
     (let extension = substring domainName (lastIndexOf domainName 46);
          whoisConfig = \<lparr>timeout = (if extension \<in> set problematicTLDs then 15000
                                     else whoisTimeout E),
                         follow = 3\<rparr>;
          (reply, took) = whois E (clock w) domainName whoisConfig;
          w' = w\<lparr>clock := clock w + took,
                  whois_calls := whois_calls w @ [(domainName, whoisConfig)]\<rparr>;
          attempt = (case reply of
                       Inl message \<Rightarrow> Inl message
                     | Inr data \<Rightarrow>
                         (case isDomainAvailable E data of
                            Inl message \<Rightarrow> Inl message
                          | Inr isAvailable \<Rightarrow>
                              Inr \<lparr>lookup_available = isAvailable, lookup_data = data\<rparr>))
      in case attempt of
           Inr result \<Rightarrow> (Inr result, w')
         | Inl message \<Rightarrow>
             if isNotFoundError E message
             then (Inr \<lparr>lookup_available = True, lookup_data = Falsy\<rparr>, w')
             else if isTimeoutOrConnectionError E message \<and> extension \<in> set problematicTLDs
             then (Inl (manualVerificationMessage extension), w')
             else (Inl message, w'))"

text \<open>
  \<^verbatim>\<open>await rateLimiter.add(task)\<close> as one caller at a time sees it. The scheduler is
  at rest: \<open>add\<close> creates the promise, pushes the task and calls it at once; the
  task runs to its end; the scheduler takes the outcome, settles the promise and, the
  queue being empty, is at rest again. A call that finds the scheduler at work waits
  for the tasks of other callers: that is not a sequential run, and the model gives
  \<open>None\<close> for it.
\<close>

definition at_rest :: "'r limiter \<Rightarrow> bool" where
  "at_rest L \<longleftrightarrow> \<not> processing L \<and> queue L = [] \<and> phase L = Idle"

definition await_add ::
  "(world \<Rightarrow> (jsstring + lookup) \<times> world) \<Rightarrow> world \<Rightarrow> ((jsstring + lookup) \<times> world) option" where
  "await_add task w =
     (if at_rest (limiter w)
      then (let ticket = submitted w;
                w1 = w\<lparr>limiter := add ticket (limiter w), submitted := submitted w + 1\<rparr>;
                (outcome, w2) = task w1;
                w3 = w2\<lparr>limiter := task_settled outcome (limiter w2)\<rparr>
            in Some (outcome, w3))
      else None)"

definition checkDomain :: "env \<Rightarrow> jsstring \<Rightarrow> world \<Rightarrow> (resolution \<times> world) option" where
  "checkDomain E domainName w =
     (let startTime = clock w;
          normalizedDomain = trim (toLowerCase E domainName);
          (cached, w1) = cache_get normalizedDomain w
      in case cached of
           Some c \<Rightarrow> Some (c\<lparr>fromCache := True\<rparr>, w1)
         | None \<Rightarrow>
             (case await_add (performWhoisLookup E normalizedDomain) w1 of
                None \<Rightarrow> None
              | Some (Inr result, w2) \<Rightarrow>
                  (let responseTime = clock w2 - startTime;
                       domainResult =
                         \<lparr>domain = normalizedDomain,
                          available = JBool (lookup_available result),
                          status = (if lookup_available result then Available else Registered),
                          error = None,
                          responseTime = responseTime,
                          fromCache = False,
                          checkedAt = toISOString E (clock w2),
                          provider = None,
                          pricing = None\<rparr>
                   in Some (domainResult, cache_set E normalizedDomain domainResult w2))
              | Some (Inl message, w2) \<Rightarrow>
                  (let responseTime = clock w2 - startTime
                   in Some (\<lparr>domain = normalizedDomain,
                              available = JNull,
                              status = Error,
                              error = Some message,
                              responseTime = responseTime,
                              fromCache = False,
                              checkedAt = toISOString E (clock w2),
                              provider = None,
                              pricing = None\<rparr>, w2))))"

text \<open>
  \<open>checkMultipleDomains\<close>. The callback is a function of the caller's own state, or
  null (\<open>None\<close>). The loop runs over the domains from index \<open>i\<close> on, \<open>n\<close> being the
  constant \<^verbatim>\<open>total\<close>; \<open>percentage\<close> is
  the floating-point expression \<^verbatim>\<open>((i + 1) / total * 100).toFixed(2)\<close>, left to the
  environment.
\<close>

record progress =
  current :: nat
  total :: nat
  percentage :: jsstring
  progress_domain :: jsstring
  progress_result :: resolution

fun checkMultipleDomains_loop ::
  "env \<Rightarrow> (progress \<Rightarrow> 'o \<Rightarrow> 'o) option \<Rightarrow> nat \<Rightarrow> jsstring list \<Rightarrow> nat \<Rightarrow> resolution list
     \<Rightarrow> world \<Rightarrow> 'o \<Rightarrow> (resolution list \<times> world \<times> 'o) option" where
  "checkMultipleDomains_loop E onProgress n [] i results w obs = Some (results, w, obs)"
| "checkMultipleDomains_loop E onProgress n (domainName # rest) i results w obs =
     (case checkDomain E domainName w of
        None \<Rightarrow> None
      | Some (result, w') \<Rightarrow>
          (let results' = results @ [result];
               obs' = (case onProgress of
                         None \<Rightarrow> obs
                       | Some callback \<Rightarrow>
                           callback \<lparr>current = i + 1,
                                     total = n,
                                     percentage = toFixed2 E (i + 1) n,
                                     progress_domain = domainName,
                                     progress_result = result\<rparr> obs)
           in checkMultipleDomains_loop E onProgress n rest (i + 1) results' w' obs'))"

definition checkMultipleDomains ::
  "env \<Rightarrow> jsstring list \<Rightarrow> (progress \<Rightarrow> 'o \<Rightarrow> 'o) option \<Rightarrow> world \<Rightarrow> 'o
     \<Rightarrow> (resolution list \<times> world \<times> 'o) option" where
  "checkMultipleDomains E domains onProgress w obs =
     checkMultipleDomains_loop E onProgress (length domains) domains 0 [] w obs"

text \<open>
  The batch as the specification words it: the domains are resolved one after the
  other, each on the state the previous one left, and the results are listed in that
  order; the callback receives one report per domain, numbered from 1.
\<close>

fun resolve_in_order :: "env \<Rightarrow> jsstring list \<Rightarrow> world \<Rightarrow> (resolution list \<times> world) option" where
  "resolve_in_order E [] w = Some ([], w)"
| "resolve_in_order E (d # ds) w =
     (case checkDomain E d w of
        None \<Rightarrow> None
      | Some (r, w') \<Rightarrow>
          (case resolve_in_order E ds w' of
             None \<Rightarrow> None
           | Some (rs, w'') \<Rightarrow> Some (r # rs, w'')))"

definition progress_reports :: "env \<Rightarrow> jsstring list \<Rightarrow> resolution list \<Rightarrow> progress list" where
  "progress_reports E domains results =
     map (\<lambda>i. \<lparr>current = i + 1,
                total = length domains,
                percentage = toFixed2 E (i + 1) (length domains),
                progress_domain = domains ! i,
                progress_result = results ! i\<rparr>) [0..<length domains]"

section \<open>Registrar-API resolution service (godaddy.service.js)\<close>

text \<open>
  The error objects of the \<^verbatim>\<open>catch\<close> block differ in their message only. The letters
  outside Basic Latin in the messages are code units 225, 191, 243 and 237.
\<close>

definition godaddy_error :: "env \<Rightarrow> jsstring \<Rightarrow> jsstring \<Rightarrow> int \<Rightarrow> int \<Rightarrow> resolution" where
  "godaddy_error E normalizedDomain message elapsed now =
     \<lparr>domain = normalizedDomain,
      available = JNull,
      status = Error,
      error = Some message,
      responseTime = elapsed,
      fromCache = False,
      checkedAt = toISOString E now,
      provider = Some (js ''godaddy''),
      pricing = None\<rparr>"

definition godaddy_error_message :: "nat option \<Rightarrow> jsstring \<Rightarrow> jsstring" where
  "godaddy_error_message httpStatus message =
     (if httpStatus = Some 400
      then js ''API keys inv'' @ [225] @ js ''lidas ('' @ [191] @ js ''est'' @ [225] @
           js ''s usando keys de OTE en lugar de Production?)''
      else if httpStatus = Some 401
      then js ''API Key de GoDaddy inv'' @ [225] @ js ''lida. Verifica tu configuraci'' @ [243] @
           js ''n.''
      else if httpStatus = Some 429
      then js ''L'' @ [237] @ js ''mite de requests excedido. Espera un momento.''
      else if httpStatus = Some 422
      then js ''Formato de dominio inv'' @ [225] @ js ''lido''
      else if message = [] then js ''Error desconocido'' else message)"

definition godaddy_checkDomain :: "env \<Rightarrow> jsstring \<Rightarrow> world \<Rightarrow> resolution \<times> world" where
  "godaddy_checkDomain E domainName w =
     (let startTime = clock w;
          normalizedDomain = trim (toLowerCase E domainName);
          (cached, w1) = cache_get normalizedDomain w
      in case cached of
           Some c \<Rightarrow> (c\<lparr>fromCache := True\<rparr>, w1)
         | None \<Rightarrow>
             (let (reply, took) = axios_get E (clock w1) normalizedDomain;
                  w2 = w1\<lparr>clock := clock w1 + took,
                          api_calls := api_calls w1 @ [normalizedDomain]\<rparr>;
                  elapsed = clock w2 - startTime
              in case reply of
                   ApiOk d \<Rightarrow>
                     (let domainResult =
                            \<lparr>domain = normalizedDomain,
                             available = api_available d,
                             status = (if truthy (api_available d) then Available
                                       else Registered),
                             error = None,
                             responseTime = elapsed,
                             fromCache = False,
                             checkedAt = toISOString E (clock w2),
                             provider = Some (js ''godaddy''),
                             pricing = Some
                               \<lparr>price = (case api_price d of
                                           None \<Rightarrow> None
                                         | Some p \<Rightarrow> if p = 0 then None else Some p),
                                currency = (case api_currency d of
                                              None \<Rightarrow> js ''USD''
                                            | Some c \<Rightarrow> if c = [] then js ''USD'' else c),
                                period = (case api_period d of
                                            None \<Rightarrow> 1
                                          | Some n \<Rightarrow> if n = 0 then 1 else n)\<rparr>\<rparr>
                      in (domainResult, cache_set E normalizedDomain domainResult w2))
                 | ApiHttpError httpStatus message \<Rightarrow>
                     (godaddy_error E normalizedDomain
                        (godaddy_error_message (Some httpStatus) message) elapsed (clock w2), w2)
                 | ApiFailure message \<Rightarrow>
                     (godaddy_error E normalizedDomain
                        (godaddy_error_message None message) elapsed (clock w2), w2)))"

section \<open>Sessions of the two services\<close>

text \<open>
  What the routes and the hourly timer do to the shared state, in any order: a check
  by either service, the clearing of the cache, the sweep of expired entries; and time
  passing. A session starts with an empty cache and the scheduler at rest, and
  lists the results the checks returned.
\<close>

datatype request =
  WhoisCheck jsstring | ApiCheck jsstring | ClearCache | SweepCache | TimePasses int

fun serve :: "env \<Rightarrow> request \<Rightarrow> world \<Rightarrow> resolution list \<times> world" where
  "serve E (WhoisCheck d) w =
     (case checkDomain E d w of None \<Rightarrow> ([], w) | Some (r, w') \<Rightarrow> ([r], w'))"
| "serve E (ApiCheck d) w = (case godaddy_checkDomain E d w of (r, w') \<Rightarrow> ([r], w'))"
| "serve E ClearCache w = ([], cache_clear w)"
| "serve E SweepCache w = ([], cleanExpired w)"
| "serve E (TimePasses dt) w = ([], w\<lparr>clock := clock w + dt\<rparr>)"

fun session :: "env \<Rightarrow> request list \<Rightarrow> world \<Rightarrow> resolution list \<times> world" where
  "session E [] w = ([], w)"
| "session E (q # qs) w =
     (case serve E q w of
        (rs, w') \<Rightarrow> (case session E qs w' of (rs', w'') \<Rightarrow> (rs @ rs', w'')))"

definition initial_world :: "int \<Rightarrow> nat \<Rightarrow> world" where
  "initial_world now delayMs =
     \<lparr>clock = now, cache = Map.empty, limiter = new_limiter delayMs, submitted = 0,
      whois_calls = [], api_calls = []\<rparr>"

text \<open>The consistency of \<open>status\<close> and \<open>available\<close> in a result.\<close>

definition consistent :: "resolution \<Rightarrow> bool" where
  "consistent r \<longleftrightarrow>
     (status r = Available \<longleftrightarrow> available r = JBool True) \<and>
     (status r = Registered \<longleftrightarrow> available r = JBool False) \<and>
     (available r = JNull \<longrightarrow> status r = Error)"

section \<open>Domain syntax (fileParser.js)\<close>

text \<open>
  \<open>isValidDomainName\<close>. The pattern
  \<^verbatim>\<open>/^[a-z0-9]([a-z0-9-]*[a-z0-9])?(\.[a-z0-9]([a-z0-9-]*[a-z0-9])?)*$/i\<close> matches a string
  when each of the pieces between its dots is a label: not empty, letters, digits and
  hyphens only, a letter or digit first and last. Under the flag \<open>i\<close> the class
  \<^verbatim>\<open>[a-z]\<close> holds the Basic Latin letters of both cases and nothing else.
\<close>

definition isAlnum :: "nat \<Rightarrow> bool" where
  "isAlnum c \<longleftrightarrow> (97 \<le> c \<and> c \<le> 122) \<or> (65 \<le> c \<and> c \<le> 90) \<or> (48 \<le> c \<and> c \<le> 57)"

definition isLabel :: "jsstring \<Rightarrow> bool" where
  "isLabel l \<longleftrightarrow>
     l \<noteq> [] \<and> isAlnum (hd l) \<and> isAlnum (last l) \<and> list_all (\<lambda>c. isAlnum c \<or> c = 45) l"

fun split_at :: "nat \<Rightarrow> jsstring \<Rightarrow> jsstring list" where
  "split_at sep [] = [[]]"
| "split_at sep (c # cs) =
     (if c = sep then [] # split_at sep cs
      else (case split_at sep cs of
              piece # pieces \<Rightarrow> (c # piece) # pieces
            | [] \<Rightarrow> [[c]]))"

definition domainPattern_test :: "jsstring \<Rightarrow> bool" where
  "domainPattern_test d = list_all isLabel (split_at 46 d)"

definition isValidDomainName :: "jsstring \<Rightarrow> bool" where
  "isValidDomainName d \<longleftrightarrow>
     \<not> (length d = 0) \<and>
     domainPattern_test d \<and>
     length d \<le> 253 \<and>
     \<not> str_includes d (js ''..'') \<and>
     \<not> startsWith d (js ''-'') \<and>
     \<not> endsWith d (js ''-'')"

section \<open>Notions used to state the properties\<close>

text \<open>
  Names for parts of \<open>performWhoisLookup\<close> and \<open>checkDomain\<close>, used to state their
  properties: the extension and the transport configuration computed for a domain, and
  the key under which a domain is cached.
\<close>

definition extension_of :: "jsstring \<Rightarrow> jsstring" where
  "extension_of d = substring d (lastIndexOf d 46)"

definition lookup_config :: "env \<Rightarrow> jsstring \<Rightarrow> whois_config" where
  "lookup_config E d =
     \<lparr>timeout = (if extension_of d \<in> set problematicTLDs then 15000 else whoisTimeout E),
      follow = 3\<rparr>"

definition normalized :: "env \<Rightarrow> jsstring \<Rightarrow> jsstring" where
  "normalized E d = trim (toLowerCase E d)"

text \<open>
  The state a completed lookup leaves, and the two result objects of \<open>checkDomain\<close>, as
  functions of the state at the call (\<open>w\<close>) and the state at the end of the lookup.
\<close>

definition lookup_world :: "env \<Rightarrow> jsstring \<Rightarrow> world \<Rightarrow> world" where
  "lookup_world E nd w =
     w\<lparr>cache := (cache w)(nd := None),
       clock := clock w + snd (whois E (clock w) nd (lookup_config E nd)),
       whois_calls := whois_calls w @ [(nd, lookup_config E nd)],
       submitted := submitted w + 1,
       limiter := (limiter w)\<lparr>trace := trace (limiter w) @
          [Started (submitted w),
           settle_event (submitted w) (fst (performWhoisLookup E nd w))]\<rparr>\<rparr>"

definition fresh_result :: "env \<Rightarrow> jsstring \<Rightarrow> bool \<Rightarrow> world \<Rightarrow> world \<Rightarrow> resolution" where
  "fresh_result E nd a w w' =
     \<lparr>domain = nd, available = JBool a, status = (if a then Available else Registered),
      error = None, responseTime = clock w' - clock w, fromCache = False,
      checkedAt = toISOString E (clock w'), provider = None, pricing = None\<rparr>"

definition error_result :: "env \<Rightarrow> jsstring \<Rightarrow> jsstring \<Rightarrow> world \<Rightarrow> world \<Rightarrow> resolution" where
  "error_result E nd message w w' =
     \<lparr>domain = nd, available = JNull, status = Error,
      error = Some message, responseTime = clock w' - clock w, fromCache = False,
      checkedAt = toISOString E (clock w'), provider = None, pricing = None\<rparr>"

text \<open>
  What holds of the scheduler after any sequence of inputs: the flag \<open>processing\<close> is
  set exactly while \<open>processQueue\<close> is suspended; at rest the queue is empty; a sleep
  runs only while a task waits; the trace is serial and ends with the event of the
  current phase; every task called has been settled, but the one that runs.
\<close>

definition sched_inv :: "'r limiter \<Rightarrow> bool" where
  "sched_inv L \<longleftrightarrow>
     (processing L \<longleftrightarrow> phase L \<noteq> Idle) \<and>
     (phase L = Idle \<longrightarrow> queue L = []) \<and>
     (phase L = Sleeping \<longrightarrow> queue L \<noteq> []) \<and>
     serial (trace L) \<and>
     (case phase L of
        Idle \<Rightarrow> trace L = [] \<or> is_settling (last (trace L))
      | Running t \<Rightarrow> trace L \<noteq> [] \<and> last (trace L) = Started t
      | Sleeping \<Rightarrow> trace L \<noteq> [] \<and> is_sleep (last (trace L))) \<and>
     started (trace L) =
       settled_tickets (trace L) @ (case phase L of Running t \<Rightarrow> [t] | _ \<Rightarrow> [])"

text \<open>
  The reports the loop hands to the callback for the domains from index \<open>i\<close> on.
\<close>

fun reports_from :: "env \<Rightarrow> nat \<Rightarrow> nat \<Rightarrow> jsstring list \<Rightarrow> resolution list \<Rightarrow> progress list" where
  "reports_from E n i (d # ds) (r # rs) =
     \<lparr>current = i + 1, total = n, percentage = toFixed2 E (i + 1) n,
      progress_domain = d, progress_result = r\<rparr> # reports_from E n (i + 1) ds rs"
| "reports_from E n i ds rs = []"

text \<open>Every result the cache holds is consistent.\<close>

definition cache_consistent :: "(jsstring \<Rightarrow> cache_entry option) \<Rightarrow> bool" where
  "cache_consistent c \<longleftrightarrow> (\<forall>k item. c k = Some item \<longrightarrow> consistent (entry_value item))"

text \<open>
  The registrar API keeps to its interface when the flag of every payload it answers
  with is a boolean.
\<close>

definition boolean_flags :: "env \<Rightarrow> bool" where
  "boolean_flags E \<longleftrightarrow>
     (\<forall>now d payload took. axios_get E now d = (ApiOk payload, took)
        \<longrightarrow> (\<exists>b. api_available payload = JBool b))"

section \<open>Environments and states for the examples\<close>

text \<open>
  A transport that answers from a table keyed by the domain, every call taking 120 ms,
  and an API that finds every domain available; the renderings of dates and
  percentages are left empty.
\<close>

definition example_env :: "(jsstring \<Rightarrow> jsstring + whois_data) \<Rightarrow> env" where
  "example_env answers =
     \<lparr>toLowerCase = asciiLower,
      toISOString = (\<lambda>t. []),
      toFixed2 = (\<lambda>i n. []),
      whois = (\<lambda>now d c. (answers d, 120)),
      axios_get = (\<lambda>now d. (ApiOk \<lparr>api_available = JBool True, api_price = None,
                                     api_currency = None, api_period = None\<rparr>, 80)),
      cacheTTL = 86400000,
      whoisTimeout = 10000\<rparr>"

text \<open>An environment whose WHOIS transport fails with an empty message for every domain.\<close>

definition silent_env :: env where
  "silent_env = example_env (\<lambda>d. Inl [])"

text \<open>
  An environment whose registrar API answers every request with the body \<^verbatim>\<open>{}\<close>: a
  payload with no flag.
\<close>

definition flagless_env :: env where
  "flagless_env =
     (example_env (\<lambda>d. Inl []))\<lparr>axios_get :=
        (\<lambda>now d. (ApiOk \<lparr>api_available = JUndefined, api_price = None,
                             api_currency = None, api_period = None\<rparr>, 80))\<rparr>"

text \<open>
  Environments and a state for the examples: a transport that fails with a given message
  for every domain, one that answers every query with a given serialisation, and the
  state of a fresh process at instant 1000 with a scheduler delay of 2000 ms.
\<close>

definition failing_env :: "jsstring \<Rightarrow> env" where
  "failing_env message = example_env (\<lambda>d. Inl message)"

definition answering_env :: "jsstring \<Rightarrow> env" where
  "answering_env text = example_env (\<lambda>d. Inr (Serialized text))"

definition example_world :: world where
  "example_world = initial_world 1000 2000"

text \<open>
  A state whose cache holds an entry for example.com that expired at instant 500,
  before the instant 1000 of the state.
\<close>

definition stale_world :: world where
  "stale_world =
     example_world\<lparr>cache :=
       [js ''example.com'' \<mapsto>
          \<lparr>entry_value =
             \<lparr>domain = js ''example.com'', available = JBool False, status = Registered,
              error = None, responseTime = 90, fromCache = False, checkedAt = [],
              provider = None, pricing = None\<rparr>,
           expiry = 500, createdAt = 0\<rparr>]\<rparr>"

text \<open>
  Serialisations for the examples. \<^verbatim>\<open>JSON.stringify\<close> puts a string between double
  quotes (code unit 34) and writes a line feed as the two code units 92 and 110;
  \<open>json_of_string\<close> is the JSON text of a string that has nothing to escape. The first
  scenario is the JSON text of the string
  \<^verbatim>\<open>Domain Name: EXAMPLE.COM\nRegistrar: Foo\nCreation Date: 2001-01-01\<close>, the second
  has one registration phrase and one availability phrase.
\<close>

definition json_of_string :: "string \<Rightarrow> jsstring" where
  "json_of_string s = [34] @ js s @ [34]"

definition scenario_registered :: jsstring where
  "scenario_registered =
     [34] @ js ''Domain Name: EXAMPLE.COM'' @ [92, 110] @ js ''Registrar: Foo'' @ [92, 110] @
     js ''Creation Date: 2001-01-01'' @ [34]"

definition scenario_single_signal :: jsstring where
  "scenario_single_signal =
     json_of_string ''No match for the holder. Registrar: none on record for this name.''"

section \<open>Properties of the classifier\<close>

lemma countRegistered_filter:
  "n < 2 \<Longrightarrow> countRegistered ps s n =
     (if n + length (filter (str_includes s) ps) \<ge> 2 then None
      else Some (n + length (filter (str_includes s) ps)))"
proof (induction ps arbitrary: n)
  case Nil
  then show ?case by simp
next
  case (Cons p ps)
  show ?case
  proof (cases "str_includes s p")
    case True
    show ?thesis
    proof (cases "n = 0")
      case True
      with \<open>str_includes s p\<close> Cons.IH [of 1] show ?thesis by simp
    next
      case False
      with Cons.prems have "n = 1" by simp
      with \<open>str_includes s p\<close> show ?thesis by simp
    qed
  next
    case False
    with Cons.IH [OF Cons.prems] show ?thesis by simp
  qed
qed

lemma countRegistered_none:
  "\<forall>p \<in> set ps. \<not> str_includes s p \<Longrightarrow> countRegistered ps s n = Some n"
proof (induction ps arbitrary: n)
  case Nil
  show ?case by simp
next
  case (Cons p ps)
  have "\<not> str_includes s p" using Cons.prems by simp
  moreover have "countRegistered ps s n = Some n" using Cons.IH Cons.prems by simp
  ultimately show ?case by simp
qed

lemma two_matches_filter:
  assumes "p \<in> set ps" "q \<in> set ps" "p \<noteq> q" "P p" "P q"
  shows "2 \<le> length (filter P ps)"
proof -
  have "{p, q} \<subseteq> set (filter P ps)" using assms by auto
  then have "card {p, q} \<le> card (set (filter P ps))" by (intro card_mono) auto
  also have "\<dots> \<le> length (filter P ps)" by (rule card_length)
  finally show ?thesis using assms(3) by simp
qed

lemma one_match_filter:
  assumes "distinct ps" "p \<in> set ps" "P p" "\<forall>q \<in> set ps. P q \<longrightarrow> q = p"
  shows "length (filter P ps) = 1"
proof -
  have "\<And>x. x \<in> set ps \<and> P x \<longleftrightarrow> x = p" using assms(2,3,4) by blast
  then have "set (filter P ps) = {p}" by (simp add: set_eq_iff)
  moreover have "distinct (filter P ps)" using assms(1) by (rule distinct_filter)
  then have "card (set (filter P ps)) = length (filter P ps)" by (rule distinct_card)
  ultimately show ?thesis by simp
qed

lemma second_match_position:
  assumes "2 \<le> length (filter P ps)"
  shows "\<exists>k < length ps. P (ps ! k) \<and> length (filter P (take k ps)) = 1"
  using assms
proof (induction ps rule: rev_induct)
  case Nil
  then show ?case by simp
next
  case (snoc x xs)
  show ?case
  proof (cases "2 \<le> length (filter P xs)")
    case True
    then obtain k where "k < length xs" "P (xs ! k)" "length (filter P (take k xs)) = 1"
      using snoc.IH by blast
    then show ?thesis by (auto simp: nth_append intro!: exI [of _ k])
  next
    case False
    with snoc.prems have "P x" "length (filter P xs) = 1" by (auto split: if_splits)
    then show ?thesis by (auto intro!: exI [of _ "length xs"])
  qed
qed

lemma distinct_strong: "distinct strongRegisteredPatterns"
  by (simp add: strongRegisteredPatterns_def js_def)

lemma isDomainAvailable_long:
  "50 \<le> length (toLowerCase E text) \<Longrightarrow>
   isDomainAvailable E (Serialized text) =
     (case countRegistered strongRegisteredPatterns (toLowerCase E text) 0 of
        None \<Rightarrow> Inr False
      | Some n \<Rightarrow>
          if n \<ge> 1 then Inr False
          else if list_ex (str_includes (toLowerCase E text)) availablePatterns then Inr True
          else if length (toLowerCase E text) < 200 then Inr True
          else Inr False)"
  by (simp add: Let_def)

text \<open>
  Claim C2. A response whose lower-cased serialisation holds no phrase of the
  strong-registration table and no phrase of the availability table is classified by
  its length alone: available when the serialisation is shorter than 200 code units,
  registered otherwise. Any serialisation shorter than 50 code units, and a falsy
  response (null, absent), is classified available.
\<close>

theorem C2_unmatched_response_decided_by_length:
  assumes "\<forall>p \<in> set strongRegisteredPatterns. \<not> str_includes (toLowerCase E text) p"
    and "\<forall>p \<in> set availablePatterns. \<not> str_includes (toLowerCase E text) p"
  shows "isDomainAvailable E (Serialized text) = Inr (length (toLowerCase E text) < 200)
    \<and> (\<forall>short. length (toLowerCase E short) < 50
          \<longrightarrow> isDomainAvailable E (Serialized short) = Inr True)
    \<and> isDomainAvailable E Falsy = Inr True"
proof -
  have count: "countRegistered strongRegisteredPatterns (toLowerCase E text) 0 = Some 0"
    using assms(1) by (rule countRegistered_none)
  have no_avail: "\<not> list_ex (str_includes (toLowerCase E text)) availablePatterns"
    using assms(2) by (simp add: list_ex_iff)
  have "isDomainAvailable E (Serialized text) = Inr (length (toLowerCase E text) < 200)"
  proof (cases "length (toLowerCase E text) < 50")
    case True
    then show ?thesis by (simp add: Let_def)
  next
    case False
    then have "50 \<le> length (toLowerCase E text)" by simp
    from isDomainAvailable_long [OF this] count no_avail show ?thesis by simp
  qed
  moreover have "\<forall>short. length (toLowerCase E short) < 50
          \<longrightarrow> isDomainAvailable E (Serialized short) = Inr True"
    by (simp add: Let_def)
  ultimately show ?thesis by simp
qed

theorem C2_unmatched_response_witness:
  "\<not> list_ex (str_includes (toLowerCase silent_env
        (json_of_string ''Domain data withheld. Contact the registry operator for details.'')))
      strongRegisteredPatterns
   \<and> \<not> list_ex (str_includes (toLowerCase silent_env
        (json_of_string ''Domain data withheld. Contact the registry operator for details.'')))
      availablePatterns
   \<and> isDomainAvailable silent_env
        (Serialized (json_of_string ''Domain data withheld. Contact the registry operator for details.''))
       = Inr True"
proof -
  let ?t = "json_of_string ''Domain data withheld. Contact the registry operator for details.''"
  have lower: "toLowerCase silent_env ?t =
      json_of_string ''domain data withheld. contact the registry operator for details.''"
    by (simp add: silent_env_def example_env_def asciiLower_def json_of_string_def js_def)
  have h1: "\<forall>p \<in> set strongRegisteredPatterns. \<not> str_includes (toLowerCase silent_env ?t) p"
    unfolding lower by (simp add: strongRegisteredPatterns_def json_of_string_def js_def)
  have h2: "\<forall>p \<in> set availablePatterns. \<not> str_includes (toLowerCase silent_env ?t) p"
    unfolding lower by (simp add: availablePatterns_def json_of_string_def js_def)
  have "length (toLowerCase silent_env ?t) < 200"
    unfolding lower by (simp add: json_of_string_def js_def)
  with C2_unmatched_response_decided_by_length [OF h1 h2] h1 h2 show ?thesis
    by (simp add: list_ex_iff)
qed

lemma countRegistered_take:
  assumes "2 \<le> length (filter (str_includes s) ps)"
  shows "\<exists>k < length ps. str_includes s (ps ! k)
           \<and> countRegistered (take k ps) s 0 = Some 1
           \<and> countRegistered (take (Suc k) ps) s 0 = None"
proof -
  from second_match_position [OF assms] obtain k where k: "k < length ps"
    and hit: "str_includes s (ps ! k)"
    and one: "length (filter (str_includes s) (take k ps)) = 1"
    by blast
  have "countRegistered (take k ps) s 0 = Some 1"
    using one by (simp add: countRegistered_filter)
  moreover have "length (filter (str_includes s) (take (Suc k) ps)) = 2"
    using k hit one by (simp add: take_Suc_conv_app_nth)
  then have "countRegistered (take (Suc k) ps) s 0 = None"
    by (simp add: countRegistered_filter)
  ultimately show ?thesis using k hit by blast
qed

text \<open>
  Claim C1, as the code has it. The length test comes first: a serialisation shorter
  than 50 code units is classified available whatever it holds. For a lower-cased
  serialisation of at least 50 code units: if it holds two distinct phrases of the
  strong-registration table, the classifier returns registered from inside the
  counting loop, at the table position of the second phrase found (the count is 1
  before that position, and the loop over the table up to and including it already
  returns); if it holds exactly one phrase of the table, the loop runs to its end with
  count 1 and the classifier returns registered, whatever availability phrases the
  serialisation holds.
\<close>

theorem C1_strong_evidence_registered:
  assumes "50 \<le> length (toLowerCase E text)"
  shows "(\<forall>p q. p \<in> set strongRegisteredPatterns \<and> q \<in> set strongRegisteredPatterns \<and> p \<noteq> q
            \<and> str_includes (toLowerCase E text) p \<and> str_includes (toLowerCase E text) q
          \<longrightarrow> isDomainAvailable E (Serialized text) = Inr False
              \<and> countRegistered strongRegisteredPatterns (toLowerCase E text) 0 = None
              \<and> (\<exists>k < length strongRegisteredPatterns.
                    str_includes (toLowerCase E text) (strongRegisteredPatterns ! k)
                    \<and> countRegistered (take k strongRegisteredPatterns) (toLowerCase E text) 0
                        = Some 1
                    \<and> countRegistered (take (Suc k) strongRegisteredPatterns)
                          (toLowerCase E text) 0 = None))
    \<and> (\<forall>p. p \<in> set strongRegisteredPatterns \<and> str_includes (toLowerCase E text) p
            \<and> (\<forall>q \<in> set strongRegisteredPatterns. str_includes (toLowerCase E text) q \<longrightarrow> q = p)
          \<longrightarrow> countRegistered strongRegisteredPatterns (toLowerCase E text) 0 = Some 1
              \<and> isDomainAvailable E (Serialized text) = Inr False)"
proof (intro conjI allI impI)
  fix p q
  assume h: "p \<in> set strongRegisteredPatterns \<and> q \<in> set strongRegisteredPatterns \<and> p \<noteq> q
            \<and> str_includes (toLowerCase E text) p \<and> str_includes (toLowerCase E text) q"
  then have two: "2 \<le> length (filter (str_includes (toLowerCase E text)) strongRegisteredPatterns)"
    by (intro two_matches_filter [of p _ q]) simp_all
  then show none: "countRegistered strongRegisteredPatterns (toLowerCase E text) 0 = None"
    by (simp add: countRegistered_filter)
  with isDomainAvailable_long [OF assms]
  show "isDomainAvailable E (Serialized text) = Inr False" by simp
  from countRegistered_take [OF two]
  show "\<exists>k < length strongRegisteredPatterns.
          str_includes (toLowerCase E text) (strongRegisteredPatterns ! k)
          \<and> countRegistered (take k strongRegisteredPatterns) (toLowerCase E text) 0 = Some 1
          \<and> countRegistered (take (Suc k) strongRegisteredPatterns) (toLowerCase E text) 0 = None" .
next
  fix p
  assume h: "p \<in> set strongRegisteredPatterns \<and> str_includes (toLowerCase E text) p
            \<and> (\<forall>q \<in> set strongRegisteredPatterns. str_includes (toLowerCase E text) q \<longrightarrow> q = p)"
  have "length (filter (str_includes (toLowerCase E text)) strongRegisteredPatterns) = 1"
    using distinct_strong h by (intro one_match_filter [of _ p]) blast+
  then show one: "countRegistered strongRegisteredPatterns (toLowerCase E text) 0 = Some 1"
    by (simp add: countRegistered_filter)
  with isDomainAvailable_long [OF assms]
  show "isDomainAvailable E (Serialized text) = Inr False" by simp
qed

lemma lower_scenario_registered:
  "toLowerCase silent_env scenario_registered =
     [34] @ js ''domain name: example.com'' @ [92, 110] @ js ''registrar: foo'' @ [92, 110] @
     js ''creation date: 2001-01-01'' @ [34]"
  by (simp add: silent_env_def example_env_def asciiLower_def scenario_registered_def js_def)

lemma lower_scenario_single_signal:
  "toLowerCase silent_env scenario_single_signal =
     json_of_string ''no match for the holder. registrar: none on record for this name.''"
  by (simp add: silent_env_def example_env_def asciiLower_def scenario_single_signal_def
      json_of_string_def js_def)

theorem C1_strong_evidence_witness:
  "50 \<le> length (toLowerCase silent_env scenario_registered)
   \<and> str_includes (toLowerCase silent_env scenario_registered) (js ''registrar:'')
   \<and> str_includes (toLowerCase silent_env scenario_registered) (js ''creation date:'')
   \<and> isDomainAvailable silent_env (Serialized scenario_registered) = Inr False
   \<and> 50 \<le> length (toLowerCase silent_env scenario_single_signal)
   \<and> list_ex (str_includes (toLowerCase silent_env scenario_single_signal)) availablePatterns
   \<and> countRegistered strongRegisteredPatterns
        (toLowerCase silent_env scenario_single_signal) 0 = Some 1
   \<and> isDomainAvailable silent_env (Serialized scenario_single_signal) = Inr False"
proof -
  have len1: "50 \<le> length (toLowerCase silent_env scenario_registered)"
    unfolding lower_scenario_registered by (simp add: js_def)
  have p1: "js ''registrar:'' \<in> set strongRegisteredPatterns"
    and q1: "js ''creation date:'' \<in> set strongRegisteredPatterns"
    and pq: "js ''registrar:'' \<noteq> js ''creation date:''"
    by (simp_all add: strongRegisteredPatterns_def js_def)
  have ip: "str_includes (toLowerCase silent_env scenario_registered) (js ''registrar:'')"
    and iq: "str_includes (toLowerCase silent_env scenario_registered) (js ''creation date:'')"
    unfolding lower_scenario_registered by (simp_all add: js_def)
  have r1: "isDomainAvailable silent_env (Serialized scenario_registered) = Inr False"
    using C1_strong_evidence_registered [OF len1] p1 q1 pq ip iq by blast
  have len2: "50 \<le> length (toLowerCase silent_env scenario_single_signal)"
    unfolding lower_scenario_single_signal by (simp add: json_of_string_def js_def)
  have i2: "str_includes (toLowerCase silent_env scenario_single_signal) (js ''registrar:'')"
    unfolding lower_scenario_single_signal by (simp add: json_of_string_def js_def)
  have only: "\<forall>q \<in> set strongRegisteredPatterns.
      str_includes (toLowerCase silent_env scenario_single_signal) q \<longrightarrow> q = js ''registrar:''"
    unfolding lower_scenario_single_signal
    by (simp add: strongRegisteredPatterns_def json_of_string_def js_def)
  have av: "list_ex (str_includes (toLowerCase silent_env scenario_single_signal)) availablePatterns"
    unfolding lower_scenario_single_signal
    by (simp add: availablePatterns_def json_of_string_def js_def)
  have r2: "countRegistered strongRegisteredPatterns
        (toLowerCase silent_env scenario_single_signal) 0 = Some 1
      \<and> isDomainAvailable silent_env (Serialized scenario_single_signal) = Inr False"
    using C1_strong_evidence_registered [OF len2] p1 i2 only by blast
  from len1 ip iq r1 len2 av r2 show ?thesis by simp
qed

theorem C1_short_response_counterexample:
  "js ''registrar:'' \<in> set strongRegisteredPatterns
   \<and> js ''created:'' \<in> set strongRegisteredPatterns
   \<and> js ''registrar:'' \<noteq> js ''created:''
   \<and> str_includes (toLowerCase silent_env (json_of_string ''Registrar: Foo Created: 2001'')) (js ''registrar:'')
   \<and> str_includes (toLowerCase silent_env (json_of_string ''Registrar: Foo Created: 2001'')) (js ''created:'')
   \<and> isDomainAvailable silent_env (Serialized (json_of_string ''Registrar: Foo Created: 2001'')) = Inr True"
  by (simp add: strongRegisteredPatterns_def silent_env_def example_env_def asciiLower_def
      json_of_string_def js_def)

section \<open>Properties of the WHOIS service\<close>

lemma performWhoisLookup_world:
  "snd (performWhoisLookup E d w) =
     w\<lparr>clock := clock w + snd (whois E (clock w) d (lookup_config E d)),
       whois_calls := whois_calls w @ [(d, lookup_config E d)]\<rparr>"
  by (simp add: performWhoisLookup_def lookup_config_def extension_of_def Let_def
      split: prod.splits sum.splits)

lemma performWhoisLookup_outcome:
  "fst (performWhoisLookup E d w) =
     (case (case fst (whois E (clock w) d (lookup_config E d)) of
              Inl message \<Rightarrow> Inl message
            | Inr data \<Rightarrow>
                (case isDomainAvailable E data of
                   Inl message \<Rightarrow> Inl message
                 | Inr a \<Rightarrow> Inr \<lparr>lookup_available = a, lookup_data = data\<rparr>)) of
        Inr result \<Rightarrow> Inr result
      | Inl message \<Rightarrow>
          if isNotFoundError E message
          then Inr \<lparr>lookup_available = True, lookup_data = Falsy\<rparr>
          else if isTimeoutOrConnectionError E message \<and> extension_of d \<in> set problematicTLDs
          then Inl (manualVerificationMessage (extension_of d))
          else Inl message)"
  by (simp add: performWhoisLookup_def lookup_config_def extension_of_def Let_def
      split: prod.splits sum.splits)

lemma performWhoisLookup_clock_only:
  "clock w = clock w' \<Longrightarrow> fst (performWhoisLookup E d w) = fst (performWhoisLookup E d w')"
  by (simp add: performWhoisLookup_outcome)

lemma add_at_rest:
  "at_rest L \<Longrightarrow>
   add t L = L\<lparr>queue := [], processing := True, phase := Running t, trace := trace L @ [Started t]\<rparr>"
  by (simp add: at_rest_def add_def processQueue_def loop_head_def)

lemma task_settled_last:
  "phase L = Running t \<Longrightarrow> queue L = [] \<Longrightarrow>
   task_settled outcome L =
     L\<lparr>processing := False, phase := Idle, trace := trace L @ [settle_event t outcome]\<rparr>"
  by (simp add: task_settled_def loop_head_def settle_event_def Let_def)

lemma await_add_at_rest:
  assumes "at_rest (limiter w)"
  shows "await_add (performWhoisLookup E d) w =
     Some (fst (performWhoisLookup E d w),
           w\<lparr>clock := clock w + snd (whois E (clock w) d (lookup_config E d)),
             whois_calls := whois_calls w @ [(d, lookup_config E d)],
             submitted := submitted w + 1,
             limiter := (limiter w)\<lparr>trace := trace (limiter w) @
                [Started (submitted w),
                 settle_event (submitted w) (fst (performWhoisLookup E d w))]\<rparr>\<rparr>)"
proof -
  let ?w1 = "w\<lparr>limiter := add (submitted w) (limiter w), submitted := submitted w + 1\<rparr>"
  have out: "fst (performWhoisLookup E d ?w1) = fst (performWhoisLookup E d w)"
    by (rule performWhoisLookup_clock_only) simp
  have rest: "processing (limiter w) = False" "queue (limiter w) = []" "phase (limiter w) = Idle"
    using assms by (simp_all add: at_rest_def)
  obtain outcome w2 where run: "performWhoisLookup E d ?w1 = (outcome, w2)"
    by (cases "performWhoisLookup E d ?w1")
  have o: "outcome = fst (performWhoisLookup E d w)" using run out by simp
  have w2: "w2 = ?w1\<lparr>clock := clock w + snd (whois E (clock w) d (lookup_config E d)),
       whois_calls := whois_calls w @ [(d, lookup_config E d)]\<rparr>"
    using run performWhoisLookup_world [of E d ?w1] by simp
  have lim: "limiter w2 = (limiter w)\<lparr>queue := [], processing := True,
        phase := Running (submitted w), trace := trace (limiter w) @ [Started (submitted w)]\<rparr>"
    unfolding w2 by (simp add: add_at_rest [OF assms])
  have settled: "task_settled outcome (limiter w2) =
      (limiter w)\<lparr>trace := trace (limiter w) @
                [Started (submitted w), settle_event (submitted w) outcome]\<rparr>"
    unfolding lim using rest by (subst task_settled_last [of _ "submitted w"]) simp_all
  have "await_add (performWhoisLookup E d) w =
      Some (outcome, w2\<lparr>limiter := task_settled outcome (limiter w2)\<rparr>)"
    using assms run by (simp add: await_add_def Let_def)
  then show ?thesis unfolding settled unfolding w2 o by simp
qed

lemma cache_get_hit:
  "cache w k = Some item \<Longrightarrow> \<not> clock w > expiry item \<Longrightarrow>
   cache_get k w = (Some (entry_value item), w)"
  by (simp add: cache_get_def)

lemma cache_get_miss:
  assumes "fst (cache_get k w) = None"
  shows "cache_get k w = (None, w\<lparr>cache := (cache w)(k := None)\<rparr>)"
proof (cases "cache w k")
  case None
  then have "(cache w)(k := None) = cache w" by (simp add: fun_upd_idem_iff)
  with None show ?thesis by (simp add: cache_get_def)
next
  case (Some item)
  with assms show ?thesis by (simp add: cache_get_def split: if_splits)
qed

lemma cache_get_miss_iff:
  "fst (cache_get k w) = None \<longleftrightarrow>
     (case cache w k of None \<Rightarrow> True | Some item \<Rightarrow> clock w > expiry item)"
  by (simp add: cache_get_def split: option.splits)

lemma checkDomain_hit:
  assumes "cache w (normalized E d) = Some item" and "\<not> clock w > expiry item"
  shows "checkDomain E d w = Some ((entry_value item)\<lparr>fromCache := True\<rparr>, w)"
  using cache_get_hit [OF assms]
  by (simp add: checkDomain_def normalized_def Let_def)

lemma checkDomain_miss:
  assumes rest: "at_rest (limiter w)"
    and miss: "fst (cache_get (normalized E d) w) = None"
  shows "checkDomain E d w =
     Some (case fst (performWhoisLookup E (normalized E d) w) of
             Inr result \<Rightarrow>
               (fresh_result E (normalized E d) (lookup_available result) w
                  (lookup_world E (normalized E d) w),
                cache_set E (normalized E d)
                  (fresh_result E (normalized E d) (lookup_available result) w
                     (lookup_world E (normalized E d) w))
                  (lookup_world E (normalized E d) w))
           | Inl message \<Rightarrow>
               (error_result E (normalized E d) message w (lookup_world E (normalized E d) w),
                lookup_world E (normalized E d) w))"
proof -
  let ?nd = "normalized E d"
  let ?w1 = "w\<lparr>cache := (cache w)(?nd := None)\<rparr>"
  have get: "cache_get ?nd w = (None, ?w1)" using miss by (rule cache_get_miss)
  have rest1: "at_rest (limiter ?w1)" using rest by simp
  have out: "fst (performWhoisLookup E ?nd ?w1) = fst (performWhoisLookup E ?nd w)"
    by (rule performWhoisLookup_clock_only) simp
  have aw: "await_add (performWhoisLookup E ?nd) ?w1 =
      Some (fst (performWhoisLookup E ?nd w), lookup_world E ?nd w)"
    unfolding await_add_at_rest [OF rest1] out by (simp add: lookup_world_def)
  show ?thesis
  proof (cases "fst (performWhoisLookup E ?nd w)")
    case (Inl message)
    with get aw show ?thesis
      by (simp add: checkDomain_def normalized_def [symmetric] Let_def error_result_def)
  next
    case (Inr result)
    with get aw show ?thesis
      by (simp add: checkDomain_def normalized_def [symmetric] Let_def fresh_result_def)
  qed
qed

lemma checkDomain_returns:
  assumes "at_rest (limiter w)"
  shows "\<exists>r w'. checkDomain E d w = Some (r, w')"
proof (cases "fst (cache_get (normalized E d) w)")
  case None
  from checkDomain_miss [OF assms None] show ?thesis
    by (cases "fst (performWhoisLookup E (normalized E d) w)") simp_all
next
  case (Some c)
  then show ?thesis
    by (cases "cache_get (normalized E d) w")
       (simp add: checkDomain_def normalized_def [symmetric] Let_def)
qed

lemma lookup_world_at_rest:
  "at_rest (limiter w) \<Longrightarrow> at_rest (limiter (lookup_world E nd w))"
  by (simp add: at_rest_def lookup_world_def)

lemma checkDomain_keeps_rest:
  assumes "at_rest (limiter w)" and "checkDomain E d w = Some (r, w')"
  shows "at_rest (limiter w')"
proof (cases "fst (cache_get (normalized E d) w)")
  case None
  from checkDomain_miss [OF assms(1) None] assms(2) lookup_world_at_rest [OF assms(1)]
  show ?thesis
    by (cases "fst (performWhoisLookup E (normalized E d) w)") (auto simp: cache_set_def Let_def)
next
  case (Some c)
  then have "snd (cache_get (normalized E d) w) = w"
    by (simp add: cache_get_def split: option.splits if_splits)
  with Some assms show ?thesis
    by (cases "cache_get (normalized E d) w")
       (auto simp add: checkDomain_def normalized_def [symmetric] Let_def)
qed

section \<open>Properties of string operations\<close>

lemma startsWith_iff: "startsWith s p \<longleftrightarrow> (\<exists>b. s = p @ b)"
  by (induction s p rule: startsWith.induct) auto

lemma endsWith_iff: "endsWith s p \<longleftrightarrow> (\<exists>a. s = a @ p)"
proof
  assume "endsWith s p"
  then obtain b where "rev s = rev p @ b" by (auto simp: endsWith_def startsWith_iff)
  then have "s = rev b @ p" by (metis rev_append rev_rev_ident)
  then show "\<exists>a. s = a @ p" by blast
next
  assume "\<exists>a. s = a @ p"
  then show "endsWith s p" by (auto simp: endsWith_def startsWith_iff)
qed

lemma lastIndexOf_from_absent:
  "c \<notin> set ys \<Longrightarrow> lastIndexOf_from ys c i found = found"
  by (induction ys arbitrary: i) auto

lemma lastIndexOf_from_last:
  "c \<notin> set ys \<Longrightarrow> lastIndexOf_from (xs @ c # ys) c i found = i + int (length xs)"
  by (induction xs arbitrary: i found) (auto simp: lastIndexOf_from_absent)

lemma extension_of_suffix:
  assumes "46 \<notin> set rest"
  shows "extension_of (a @ 46 # rest) = 46 # rest"
  using lastIndexOf_from_last [OF assms, of a 0 "- 1"]
  by (simp add: extension_of_def lastIndexOf_def substring_def)

lemma extension_of_endsWith: "endsWith d (extension_of d)"
  unfolding endsWith_iff extension_of_def substring_def
  by (metis append_take_drop_id)

lemma problematicTLD_shape:
  "tld \<in> set problematicTLDs \<Longrightarrow> \<exists>rest. tld = 46 # rest \<and> 46 \<notin> set rest"
  by (auto simp: problematicTLDs_def js_def)

lemma extension_of_problematic:
  assumes "tld \<in> set problematicTLDs" and "endsWith d tld"
  shows "extension_of d = tld"
proof -
  from problematicTLD_shape [OF assms(1)] obtain rest
    where "tld = 46 # rest" "46 \<notin> set rest" by blast
  moreover from assms(2) obtain a where "d = a @ tld" by (auto simp: endsWith_iff)
  ultimately show ?thesis by (simp add: extension_of_suffix)
qed

section \<open>Failures of the transport\<close>

lemma isNotFoundError_iff:
  "isNotFoundError E message \<longleftrightarrow>
     (\<exists>pattern \<in> set notFoundPatterns. str_includes (toLowerCase E message) pattern)"
  by (simp add: isNotFoundError_def list_ex_iff)

lemma lookup_of_failure:
  assumes "fst (whois E (clock w) nd (lookup_config E nd)) = Inl message"
  shows "fst (performWhoisLookup E nd w) =
     (if isNotFoundError E message
      then Inr \<lparr>lookup_available = True, lookup_data = Falsy\<rparr>
      else if isTimeoutOrConnectionError E message \<and> extension_of nd \<in> set problematicTLDs
      then Inl (manualVerificationMessage (extension_of nd))
      else Inl message)"
  using assms by (simp add: performWhoisLookup_outcome)

text \<open>
  Claim C3. A transport failure whose lower-cased message holds a phrase of the
  not-found table makes the lookup return available (with no data), also when the
  message holds a transient phrase and the domain has a problematic extension: the
  not-found test comes first. \<open>checkDomain\<close> then returns a result with
  \<open>available = true\<close>, \<open>status = available\<close> and no error.
\<close>

theorem C3_not_found_failure_is_available:
  assumes "pattern \<in> set notFoundPatterns"
    and "str_includes (toLowerCase E message) pattern"
    and "fst (whois E (clock w) (normalized E d) (lookup_config E (normalized E d))) = Inl message"
    and "at_rest (limiter w)"
    and "fst (cache_get (normalized E d) w) = None"
  shows "fst (performWhoisLookup E (normalized E d) w)
           = Inr \<lparr>lookup_available = True, lookup_data = Falsy\<rparr>
    \<and> fst (performWhoisLookup E (normalized E d) w)
           \<noteq> Inl (manualVerificationMessage (extension_of (normalized E d)))
    \<and> (\<exists>r w'. checkDomain E d w = Some (r, w')
          \<and> available r = JBool True \<and> status r = Available \<and> error r = None)"
proof -
  have nf: "isNotFoundError E message"
    using assms(1,2) by (auto simp: isNotFoundError_iff)
  have out: "fst (performWhoisLookup E (normalized E d) w)
      = Inr \<lparr>lookup_available = True, lookup_data = Falsy\<rparr>"
    using lookup_of_failure [OF assms(3)] nf by simp
  from checkDomain_miss [OF assms(4,5)] out
  have "\<exists>r w'. checkDomain E d w = Some (r, w')
          \<and> available r = JBool True \<and> status r = Available \<and> error r = None"
    by (simp add: fresh_result_def)
  with out show ?thesis by simp
qed

lemma normalized_shop_app:
  "normalized (failing_env m) (js ''Shop.APP'') = js ''shop.app''"
  by (simp add: normalized_def failing_env_def example_env_def asciiLower_def trim_def
      isWhiteSpace_def js_def)

lemma example_world_at_rest: "at_rest (limiter example_world)"
  by (simp add: example_world_def initial_world_def new_limiter_def at_rest_def)

lemma example_world_miss: "fst (cache_get k example_world) = None"
  by (simp add: example_world_def initial_world_def cache_get_def)

theorem C3_not_found_failure_witness:
  "js ''not found'' \<in> set notFoundPatterns
   \<and> str_includes (toLowerCase (failing_env (js ''Connection error: domain NOT FOUND''))
         (js ''Connection error: domain NOT FOUND'')) (js ''not found'')
   \<and> isTimeoutOrConnectionError (failing_env (js ''Connection error: domain NOT FOUND''))
         (js ''Connection error: domain NOT FOUND'')
   \<and> extension_of (normalized (failing_env (js ''Connection error: domain NOT FOUND''))
         (js ''Shop.APP'')) \<in> set problematicTLDs
   \<and> map_option (\<lambda>(r, w'). (available r, status r, error r))
        (checkDomain (failing_env (js ''Connection error: domain NOT FOUND''))
           (js ''Shop.APP'') example_world)
       = Some (JBool True, Available, None)"
proof -
  let ?m = "js ''Connection error: domain NOT FOUND''"
  let ?E = "failing_env ?m"
  have lower: "toLowerCase ?E ?m = js ''connection error: domain not found''"
    by (simp add: failing_env_def example_env_def asciiLower_def js_def)
  have h1: "js ''not found'' \<in> set notFoundPatterns"
    by (simp add: notFoundPatterns_def)
  have h2: "str_includes (toLowerCase ?E ?m) (js ''not found'')"
    unfolding lower by (simp add: js_def)
  have h3: "fst (whois ?E (clock example_world) (normalized ?E (js ''Shop.APP''))
      (lookup_config ?E (normalized ?E (js ''Shop.APP'')))) = Inl ?m"
    by (simp add: failing_env_def example_env_def)
  have t: "isTimeoutOrConnectionError ?E ?m"
    unfolding isTimeoutOrConnectionError_def Let_def lower
    by (simp add: timeoutPatterns_def js_def)
  have x: "extension_of (normalized ?E (js ''Shop.APP'')) \<in> set problematicTLDs"
    unfolding normalized_shop_app
    by (simp add: extension_of_def lastIndexOf_def substring_def problematicTLDs_def js_def)
  from C3_not_found_failure_is_available [OF h1 h2 h3 example_world_at_rest example_world_miss]
  have "map_option (\<lambda>(r, w'). (available r, status r, error r))
        (checkDomain ?E (js ''Shop.APP'') example_world) = Some (JBool True, Available, None)"
    by auto
  with h1 h2 t x show ?thesis by simp
qed

text \<open>
  Claim C5, as the code has it. The not-found test comes before the transient test, so
  the claim holds for the transient failures whose message holds no phrase of the
  not-found table. For such a failure: if the normalised domain ends in one of the
  problematic extensions, \<open>checkDomain\<close> returns an error result whose message is the
  manual-verification message for that extension, with \<open>available = null\<close>; if it ends in
  none of them, the error result carries the transport's message as it is.
\<close>

theorem C5_transient_failure_is_error:
  assumes "isTimeoutOrConnectionError E message"
    and "\<not> isNotFoundError E message"
    and "fst (whois E (clock w) (normalized E d) (lookup_config E (normalized E d))) = Inl message"
    and "at_rest (limiter w)"
    and "fst (cache_get (normalized E d) w) = None"
  shows "(\<forall>tld. tld \<in> set problematicTLDs \<and> endsWith (normalized E d) tld
            \<longrightarrow> (\<exists>r w'. checkDomain E d w = Some (r, w')
                    \<and> status r = Error \<and> available r = JNull
                    \<and> error r = Some (manualVerificationMessage tld)))
    \<and> ((\<forall>tld \<in> set problematicTLDs. \<not> endsWith (normalized E d) tld)
            \<longrightarrow> (\<exists>r w'. checkDomain E d w = Some (r, w')
                    \<and> status r = Error \<and> available r = JNull
                    \<and> error r = Some message))"
proof (intro conjI allI impI)
  fix tld
  assume "tld \<in> set problematicTLDs \<and> endsWith (normalized E d) tld"
  then have ext: "extension_of (normalized E d) = tld" and mem: "tld \<in> set problematicTLDs"
    by (simp_all add: extension_of_problematic)
  have "fst (performWhoisLookup E (normalized E d) w) = Inl (manualVerificationMessage tld)"
    using lookup_of_failure [OF assms(3)] assms(1,2) ext mem by simp
  with checkDomain_miss [OF assms(4,5)]
  show "\<exists>r w'. checkDomain E d w = Some (r, w') \<and> status r = Error \<and> available r = JNull
          \<and> error r = Some (manualVerificationMessage tld)"
    by (simp add: error_result_def)
next
  assume none: "\<forall>tld \<in> set problematicTLDs. \<not> endsWith (normalized E d) tld"
  have "extension_of (normalized E d) \<notin> set problematicTLDs"
    using none extension_of_endsWith [of "normalized E d"] by blast
  then have "fst (performWhoisLookup E (normalized E d) w) = Inl message"
    using lookup_of_failure [OF assms(3)] assms(2) by simp
  with checkDomain_miss [OF assms(4,5)]
  show "\<exists>r w'. checkDomain E d w = Some (r, w') \<and> status r = Error \<and> available r = JNull
          \<and> error r = Some message"
    by (simp add: error_result_def)
qed

lemma normalized_example_com:
  "normalized (failing_env m) (js ''example.com'') = js ''example.com''"
  by (simp add: normalized_def failing_env_def example_env_def asciiLower_def trim_def
      isWhiteSpace_def js_def)

theorem C5_transient_failure_witness:
  "isTimeoutOrConnectionError (failing_env (js ''connect ETIMEDOUT'')) (js ''connect ETIMEDOUT'')
   \<and> \<not> isNotFoundError (failing_env (js ''connect ETIMEDOUT'')) (js ''connect ETIMEDOUT'')
   \<and> endsWith (normalized (failing_env (js ''connect ETIMEDOUT'')) (js ''Shop.APP'')) (js ''.app'')
   \<and> map_option (\<lambda>(r, w'). (status r, available r, error r))
        (checkDomain (failing_env (js ''connect ETIMEDOUT'')) (js ''Shop.APP'') example_world)
       = Some (Error, JNull, Some (manualVerificationMessage (js ''.app'')))
   \<and> \<not> list_ex (endsWith (normalized (failing_env (js ''connect ETIMEDOUT'')) (js ''example.com'')))
          problematicTLDs
   \<and> map_option (\<lambda>(r, w'). (status r, available r, error r))
        (checkDomain (failing_env (js ''connect ETIMEDOUT'')) (js ''example.com'') example_world)
       = Some (Error, JNull, Some (js ''connect ETIMEDOUT''))"
proof -
  let ?m = "js ''connect ETIMEDOUT''"
  let ?E = "failing_env ?m"
  have lower: "toLowerCase ?E ?m = js ''connect etimedout''"
    by (simp add: failing_env_def example_env_def asciiLower_def js_def)
  have t: "isTimeoutOrConnectionError ?E ?m"
    unfolding isTimeoutOrConnectionError_def Let_def lower
    by (simp add: timeoutPatterns_def js_def)
  have n: "\<not> isNotFoundError ?E ?m"
    unfolding isNotFoundError_def Let_def lower
    by (simp add: notFoundPatterns_def js_def)
  have f: "fst (whois ?E (clock example_world) (normalized ?E x)
      (lookup_config ?E (normalized ?E x))) = Inl ?m" for x
    by (simp add: failing_env_def example_env_def)
  have app: "js ''.app'' \<in> set problematicTLDs" by (simp add: problematicTLDs_def)
  have e1: "endsWith (normalized ?E (js ''Shop.APP'')) (js ''.app'')"
    unfolding normalized_shop_app by (simp add: endsWith_def js_def)
  have e2: "\<forall>tld \<in> set problematicTLDs. \<not> endsWith (normalized ?E (js ''example.com'')) tld"
    unfolding normalized_example_com by (simp add: problematicTLDs_def endsWith_def js_def)
  note claim = C5_transient_failure_is_error [OF t n f example_world_at_rest example_world_miss]
  have r1: "map_option (\<lambda>(r, w'). (status r, available r, error r))
        (checkDomain ?E (js ''Shop.APP'') example_world)
       = Some (Error, JNull, Some (manualVerificationMessage (js ''.app'')))"
    using claim [of "js ''Shop.APP''"] app e1 by auto
  have r2: "map_option (\<lambda>(r, w'). (status r, available r, error r))
        (checkDomain ?E (js ''example.com'') example_world)
       = Some (Error, JNull, Some ?m)"
    using claim [of "js ''example.com''"] e2 by auto
  from t n e1 r1 e2 r2 show ?thesis by (simp add: list_ex_iff)
qed

theorem C5_not_found_overlap_counterexample:
  "isTimeoutOrConnectionError (failing_env (js ''Connection error: domain NOT FOUND''))
         (js ''Connection error: domain NOT FOUND'')
   \<and> js ''.app'' \<in> set problematicTLDs
   \<and> endsWith (normalized (failing_env (js ''Connection error: domain NOT FOUND''))
         (js ''Shop.APP'')) (js ''.app'')
   \<and> map_option (\<lambda>(r, w'). (status r, available r, error r))
        (checkDomain (failing_env (js ''Connection error: domain NOT FOUND''))
           (js ''Shop.APP'') example_world)
       = Some (Available, JBool True, None)"
proof -
  let ?m = "js ''Connection error: domain NOT FOUND''"
  let ?E = "failing_env ?m"
  have lower: "toLowerCase ?E ?m = js ''connection error: domain not found''"
    by (simp add: failing_env_def example_env_def asciiLower_def js_def)
  have t: "isTimeoutOrConnectionError ?E ?m"
    unfolding isTimeoutOrConnectionError_def Let_def lower
    by (simp add: timeoutPatterns_def js_def)
  have n: "isNotFoundError ?E ?m"
    unfolding isNotFoundError_def Let_def lower
    by (simp add: notFoundPatterns_def js_def)
  have f: "fst (whois ?E (clock example_world) (normalized ?E (js ''Shop.APP''))
      (lookup_config ?E (normalized ?E (js ''Shop.APP'')))) = Inl ?m"
    by (simp add: failing_env_def example_env_def)
  have app: "js ''.app'' \<in> set problematicTLDs" by (simp add: problematicTLDs_def)
  have e1: "endsWith (normalized ?E (js ''Shop.APP'')) (js ''.app'')"
    unfolding normalized_shop_app by (simp add: endsWith_def js_def)
  have "fst (performWhoisLookup ?E (normalized ?E (js ''Shop.APP'')) example_world)
      = Inr \<lparr>lookup_available = True, lookup_data = Falsy\<rparr>"
    using lookup_of_failure [OF f] n by simp
  with checkDomain_miss [OF example_world_at_rest example_world_miss, of ?E "js ''Shop.APP''"]
  have "map_option (\<lambda>(r, w'). (status r, available r, error r))
        (checkDomain ?E (js ''Shop.APP'') example_world) = Some (Available, JBool True, None)"
    by (simp add: fresh_result_def)
  with t app e1 show ?thesis by simp
qed

section \<open>Properties of checkDomain\<close>

lemma lookup_of_unserializable:
  assumes "fst (whois E (clock w) nd (lookup_config E nd)) = Inr (Unserializable message)"
  shows "fst (performWhoisLookup E nd w) =
     (if isNotFoundError E message
      then Inr \<lparr>lookup_available = True, lookup_data = Falsy\<rparr>
      else if isTimeoutOrConnectionError E message \<and> extension_of nd \<in> set problematicTLDs
      then Inl (manualVerificationMessage (extension_of nd))
      else Inl message)"
  using assms by (simp add: performWhoisLookup_outcome)

lemma checkDomain_busy:
  assumes "\<not> at_rest (limiter w)" and "fst (cache_get (normalized E d) w) = None"
  shows "checkDomain E d w = None"
proof -
  have "cache_get (normalized E d) w = (None, w\<lparr>cache := (cache w)(normalized E d := None)\<rparr>)"
    using assms(2) by (rule cache_get_miss)
  then show ?thesis using assms(1)
    by (simp add: checkDomain_def normalized_def [symmetric] Let_def await_add_def)
qed

lemma checkDomain_error_case:
  assumes "at_rest (limiter w)"
    and "fst (cache_get (normalized E d) w) = None"
    and "fst (performWhoisLookup E (normalized E d) w) = Inl message"
  shows "checkDomain E d w =
     Some (error_result E (normalized E d) message w (lookup_world E (normalized E d) w),
           lookup_world E (normalized E d) w)"
  using checkDomain_miss [OF assms(1,2)] assms(3) by simp

lemma checkDomain_success_case:
  assumes "at_rest (limiter w)"
    and "fst (cache_get (normalized E d) w) = None"
    and "fst (performWhoisLookup E (normalized E d) w) = Inr result"
  shows "checkDomain E d w =
     Some (fresh_result E (normalized E d) (lookup_available result) w
             (lookup_world E (normalized E d) w),
           cache_set E (normalized E d)
             (fresh_result E (normalized E d) (lookup_available result) w
                (lookup_world E (normalized E d) w))
             (lookup_world E (normalized E d) w))"
  using checkDomain_miss [OF assms(1,2)] assms(3) by simp

text \<open>
  Claim C4, as the code has it. With the scheduler at rest, \<open>checkDomain\<close> returns a
  result for every input string: no exception leaves it. When the lookup task throws
  (the cache holding no live entry for the domain), the result has \<open>status = error\<close>,
  \<open>available = null\<close>, the message of the exception thrown and the elapsed time, and it
  is not written to the cache: the cache is as the initial read left it, that is the
  cache before the call without the domain's entry (an expired entry is evicted by that
  read; with no entry at all the cache is unchanged), and a later read of the domain is
  a miss. The task throws for a transport failure, and for an exception of the
  classifier, whose message holds no phrase of the not-found table.
\<close>

theorem C4_lookup_failures_become_error_results:
  assumes "at_rest (limiter w)"
  shows "\<exists>r w'. checkDomain E d w = Some (r, w')
    \<and> (\<forall>message. fst (cache_get (normalized E d) w) = None
          \<and> fst (performWhoisLookup E (normalized E d) w) = Inl message
        \<longrightarrow> domain r = normalized E d \<and> status r = Error \<and> available r = JNull
            \<and> error r = Some message \<and> responseTime r = clock w' - clock w
            \<and> fromCache r = False
            \<and> cache w' = (cache w)(normalized E d := None)
            \<and> (cache w (normalized E d) = None \<longrightarrow> cache w' = cache w)
            \<and> (\<forall>w''. cache w'' = cache w' \<longrightarrow> fst (cache_get (normalized E d) w'') = None))
    \<and> (\<forall>message. fst (cache_get (normalized E d) w) = None
          \<and> \<not> isNotFoundError E message
          \<and> (fst (whois E (clock w) (normalized E d) (lookup_config E (normalized E d)))
                = Inl message
             \<or> fst (whois E (clock w) (normalized E d) (lookup_config E (normalized E d)))
                = Inr (Unserializable message))
        \<longrightarrow> status r = Error \<and> available r = JNull \<and> error r \<noteq> None)"
proof -
  let ?nd = "normalized E d"
  from checkDomain_returns [OF assms] obtain r w' where run: "checkDomain E d w = Some (r, w')"
    by blast
  have first: "domain r = ?nd \<and> status r = Error \<and> available r = JNull
            \<and> error r = Some message \<and> responseTime r = clock w' - clock w
            \<and> fromCache r = False
            \<and> cache w' = (cache w)(?nd := None)
            \<and> (cache w ?nd = None \<longrightarrow> cache w' = cache w)
            \<and> (\<forall>w''. cache w'' = cache w' \<longrightarrow> fst (cache_get ?nd w'') = None)"
    if "fst (cache_get ?nd w) = None \<and> fst (performWhoisLookup E ?nd w) = Inl message"
    for message
  proof -
    from that checkDomain_error_case [OF assms, of E d message] run
    have r: "r = error_result E ?nd message w w'" and w': "w' = lookup_world E ?nd w"
      by simp_all
    have c: "cache w' = (cache w)(?nd := None)" unfolding w' by (simp add: lookup_world_def)
    have "cache w ?nd = None \<longrightarrow> cache w' = cache w"
      unfolding c by (simp add: fun_upd_idem_iff)
    moreover have "\<forall>w''. cache w'' = cache w' \<longrightarrow> fst (cache_get ?nd w'') = None"
      unfolding c by (simp add: cache_get_def)
    ultimately show ?thesis using c unfolding r by (simp add: error_result_def)
  qed
  have second: "status r = Error \<and> available r = JNull \<and> error r \<noteq> None"
    if h: "fst (cache_get ?nd w) = None \<and> \<not> isNotFoundError E message
          \<and> (fst (whois E (clock w) ?nd (lookup_config E ?nd)) = Inl message
             \<or> fst (whois E (clock w) ?nd (lookup_config E ?nd)) = Inr (Unserializable message))"
    for message
  proof -
    from h have "\<exists>m. fst (performWhoisLookup E ?nd w) = Inl m"
      using lookup_of_failure [of E w ?nd message] lookup_of_unserializable [of E w ?nd message]
      by auto
    then obtain m where "fst (performWhoisLookup E ?nd w) = Inl m" by blast
    with first [of m] h show ?thesis by simp
  qed
  from run first second show ?thesis by blast
qed

lemma refusing_lookup:
  "fst (performWhoisLookup (failing_env (js ''connect ECONNREFUSED''))
          (normalized (failing_env (js ''connect ECONNREFUSED'')) (js ''example.com'')) w)
     = Inl (js ''connect ECONNREFUSED'')"
proof -
  let ?m = "js ''connect ECONNREFUSED''"
  let ?E = "failing_env ?m"
  have lower: "toLowerCase ?E ?m = js ''connect econnrefused''"
    by (simp add: failing_env_def example_env_def asciiLower_def js_def)
  have n: "\<not> isNotFoundError ?E ?m"
    unfolding isNotFoundError_def Let_def lower
    by (simp add: notFoundPatterns_def js_def)
  have x: "extension_of (normalized ?E (js ''example.com'')) \<notin> set problematicTLDs"
    unfolding normalized_example_com
    by (simp add: extension_of_def lastIndexOf_def substring_def problematicTLDs_def js_def)
  have f: "fst (whois ?E (clock w) (normalized ?E (js ''example.com''))
      (lookup_config ?E (normalized ?E (js ''example.com'')))) = Inl ?m"
    by (simp add: failing_env_def example_env_def)
  from lookup_of_failure [OF f] n x show ?thesis by simp
qed

theorem C4_lookup_failure_witness:
  "at_rest (limiter example_world)
   \<and> fst (cache_get (normalized (failing_env (js ''connect ECONNREFUSED'')) (js ''example.com''))
        example_world) = None
   \<and> fst (performWhoisLookup (failing_env (js ''connect ECONNREFUSED''))
          (normalized (failing_env (js ''connect ECONNREFUSED'')) (js ''example.com''))
          example_world) = Inl (js ''connect ECONNREFUSED'')
   \<and> map_option (\<lambda>(r, w'). (status r, available r, error r, fromCache r,
                        cache w' = cache example_world))
        (checkDomain (failing_env (js ''connect ECONNREFUSED'')) (js ''example.com'')
           example_world)
       = Some (Error, JNull, Some (js ''connect ECONNREFUSED''), False, True)"
proof -
  let ?m = "js ''connect ECONNREFUSED''"
  let ?E = "failing_env ?m"
  have empty: "cache example_world (normalized ?E (js ''example.com'')) = None"
    by (simp add: example_world_def initial_world_def)
  from C4_lookup_failures_become_error_results [OF example_world_at_rest,
      of ?E "js ''example.com''"]
  obtain r w' where run: "checkDomain ?E (js ''example.com'') example_world = Some (r, w')"
    and err: "\<And>message. fst (cache_get (normalized ?E (js ''example.com'')) example_world) = None
          \<and> fst (performWhoisLookup ?E (normalized ?E (js ''example.com'')) example_world)
              = Inl message
        \<Longrightarrow> status r = Error \<and> available r = JNull \<and> error r = Some message
            \<and> fromCache r = False
            \<and> (cache example_world (normalized ?E (js ''example.com'')) = None
                 \<longrightarrow> cache w' = cache example_world)"
    by blast
  from err [of ?m] example_world_miss refusing_lookup empty
  have "status r = Error \<and> available r = JNull \<and> error r = Some ?m \<and> fromCache r = False
      \<and> cache w' = cache example_world"
    by blast
  with run example_world_at_rest example_world_miss refusing_lookup show ?thesis by simp
qed

lemma stale_world_at_rest: "at_rest (limiter stale_world)"
  using example_world_at_rest by (simp add: stale_world_def)

theorem C4_not_found_and_eviction_counterexample:
  "map_option (\<lambda>(r, w'). (status r, available r, cache w' (js ''example.com'') = None))
        (checkDomain (failing_env (js ''No match for domain'')) (js ''example.com'')
           example_world)
       = Some (Available, JBool True, False)
   \<and> cache stale_world (js ''example.com'') \<noteq> None
   \<and> map_option (\<lambda>(r, w'). (status r, cache w' (js ''example.com'')))
        (checkDomain (failing_env (js ''connect ECONNREFUSED'')) (js ''example.com'')
           stale_world)
       = Some (Error, None)"
proof -
  let ?m = "js ''No match for domain''"
  let ?E = "failing_env ?m"
  let ?R = "failing_env (js ''connect ECONNREFUSED'')"
  have lower: "toLowerCase ?E ?m = js ''no match for domain''"
    by (simp add: failing_env_def example_env_def asciiLower_def js_def)
  have n: "isNotFoundError ?E ?m"
    unfolding isNotFoundError_def Let_def lower
    by (simp add: notFoundPatterns_def js_def)
  have f: "fst (whois ?E (clock example_world) (normalized ?E (js ''example.com''))
      (lookup_config ?E (normalized ?E (js ''example.com'')))) = Inl ?m"
    by (simp add: failing_env_def example_env_def)
  have "fst (performWhoisLookup ?E (normalized ?E (js ''example.com'')) example_world)
      = Inr \<lparr>lookup_available = True, lookup_data = Falsy\<rparr>"
    using lookup_of_failure [OF f] n by simp
  from checkDomain_success_case [OF example_world_at_rest example_world_miss this]
  have a: "map_option (\<lambda>(r, w'). (status r, available r, cache w' (js ''example.com'') = None))
        (checkDomain ?E (js ''example.com'') example_world) = Some (Available, JBool True, False)"
    by (simp add: fresh_result_def cache_set_def Let_def normalized_example_com)
  have b: "cache stale_world (js ''example.com'') \<noteq> None"
    by (simp add: stale_world_def)
  have miss: "fst (cache_get (normalized ?R (js ''example.com'')) stale_world) = None"
    unfolding normalized_example_com
    by (simp add: cache_get_def stale_world_def example_world_def initial_world_def)
  from checkDomain_error_case [OF stale_world_at_rest miss refusing_lookup]
  have c: "map_option (\<lambda>(r, w'). (status r, cache w' (js ''example.com'')))
        (checkDomain ?R (js ''example.com'') stale_world) = Some (Error, None)"
    by (simp add: error_result_def lookup_world_def normalized_example_com)
  from a b c show ?thesis by simp
qed

text \<open>
  Claim C8. When the cache holds an entry for the normalised domain that has not
  expired, \<open>checkDomain\<close> returns the cached result with \<open>fromCache = true\<close> and every
  other field as cached, and leaves the whole state as it was: no transport call, no
  task submitted, the scheduler and the cache untouched. In particular, after a call
  that returned a result other than an error, the cache holds an entry for the domain
  (expiring one TTL after the end of the lookup, when the result was fresh), and every
  later call made while that entry is there and not expired returns the first result
  with \<open>fromCache = true\<close>, again without touching the state.
\<close>

theorem C8_cache_hit_returns_capture:
  "(cache w (normalized E d) = Some item \<and> clock w \<le> expiry item
      \<longrightarrow> checkDomain E d w = Some ((entry_value item)\<lparr>fromCache := True\<rparr>, w))
   \<and> (checkDomain E d w = Some (r1, w1) \<and> status r1 \<noteq> Error
      \<longrightarrow> (\<exists>item. cache w1 (normalized E d) = Some item
             \<and> (\<not> fromCache r1 \<longrightarrow> expiry item = clock w1 + cacheTTL E)
             \<and> (\<forall>w2. cache w2 (normalized E d) = Some item \<and> clock w2 \<le> expiry item
                   \<longrightarrow> checkDomain E d w2 = Some (r1\<lparr>fromCache := True\<rparr>, w2))))"
proof (intro conjI impI)
  assume "cache w (normalized E d) = Some item \<and> clock w \<le> expiry item"
  then show "checkDomain E d w = Some ((entry_value item)\<lparr>fromCache := True\<rparr>, w)"
    by (intro checkDomain_hit) simp_all
next
  let ?nd = "normalized E d"
  assume h: "checkDomain E d w = Some (r1, w1) \<and> status r1 \<noteq> Error"
  show "\<exists>item. cache w1 ?nd = Some item
             \<and> (\<not> fromCache r1 \<longrightarrow> expiry item = clock w1 + cacheTTL E)
             \<and> (\<forall>w2. cache w2 ?nd = Some item \<and> clock w2 \<le> expiry item
                   \<longrightarrow> checkDomain E d w2 = Some (r1\<lparr>fromCache := True\<rparr>, w2))"
  proof (cases "fst (cache_get ?nd w)")
    case (Some c)
    then obtain item where item: "cache w ?nd = Some item" "\<not> clock w > expiry item"
      and c: "c = entry_value item"
      by (auto simp: cache_get_def split: option.splits if_splits)
    from checkDomain_hit [OF item] h
    have r1: "r1 = (entry_value item)\<lparr>fromCache := True\<rparr>" and w1: "w1 = w" by simp_all
    have "checkDomain E d w2 = Some (r1\<lparr>fromCache := True\<rparr>, w2)"
      if "cache w2 ?nd = Some item \<and> clock w2 \<le> expiry item" for w2
      using that checkDomain_hit [of w2 E d item] unfolding r1 by simp
    then show ?thesis using item(1) unfolding w1 by (auto simp: r1)
  next
    case None
    have rest: "at_rest (limiter w)"
      using checkDomain_busy [OF _ None] h by fastforce
    show ?thesis
    proof (cases "fst (performWhoisLookup E ?nd w)")
      case (Inl message)
      from checkDomain_error_case [OF rest None Inl] h show ?thesis
        by (simp add: error_result_def)
    next
      case (Inr result)
      let ?lw = "lookup_world E ?nd w"
      let ?item = "\<lparr>entry_value = r1, expiry = clock ?lw + cacheTTL E, createdAt = clock ?lw\<rparr>"
      from checkDomain_success_case [OF rest None Inr] h
      have r1: "r1 = fresh_result E ?nd (lookup_available result) w ?lw"
        and w1: "w1 = cache_set E ?nd r1 ?lw"
        by simp_all
      have stored: "cache w1 ?nd = Some ?item" and clk: "clock w1 = clock ?lw"
        unfolding w1 by (simp_all add: cache_set_def Let_def)
      have "checkDomain E d w2 = Some (r1\<lparr>fromCache := True\<rparr>, w2)"
        if "cache w2 ?nd = Some ?item \<and> clock w2 \<le> expiry ?item" for w2
        using that checkDomain_hit [of w2 E d ?item] by simp
      then show ?thesis using stored clk by auto
    qed
  qed
qed

lemma normalized_answering:
  "normalized (answering_env t) (js ''example.com'') = js ''example.com''"
  by (simp add: normalized_def answering_env_def example_env_def asciiLower_def trim_def
      isWhiteSpace_def js_def)

lemma scenario_registered_classified:
  "isDomainAvailable (answering_env scenario_registered) (Serialized scenario_registered)
     = Inr False"
proof -
  have lower: "toLowerCase (answering_env scenario_registered) scenario_registered =
     [34] @ js ''domain name: example.com'' @ [92, 110] @ js ''registrar: foo'' @ [92, 110] @
     js ''creation date: 2001-01-01'' @ [34]"
    by (simp add: answering_env_def example_env_def asciiLower_def scenario_registered_def js_def)
  have len: "50 \<le> length (toLowerCase (answering_env scenario_registered) scenario_registered)"
    unfolding lower by (simp add: js_def)
  have "str_includes (toLowerCase (answering_env scenario_registered) scenario_registered)
      (js ''registrar:'')"
    and "str_includes (toLowerCase (answering_env scenario_registered) scenario_registered)
      (js ''creation date:'')"
    unfolding lower by (simp_all add: js_def)
  then have "2 \<le> length (filter
      (str_includes (toLowerCase (answering_env scenario_registered) scenario_registered))
      strongRegisteredPatterns)"
    by (intro two_matches_filter [of "js ''registrar:''" _ "js ''creation date:''"])
       (simp_all add: strongRegisteredPatterns_def js_def)
  then have "countRegistered strongRegisteredPatterns
      (toLowerCase (answering_env scenario_registered) scenario_registered) 0 = None"
    by (simp add: countRegistered_filter)
  with isDomainAvailable_long [OF len] show ?thesis by simp
qed

lemma registered_lookup:
  "fst (performWhoisLookup (answering_env scenario_registered) (js ''example.com'') w)
     = Inr \<lparr>lookup_available = False, lookup_data = Serialized scenario_registered\<rparr>"
  using scenario_registered_classified
  by (simp add: performWhoisLookup_outcome answering_env_def example_env_def)

theorem C8_cache_hit_witness:
  "map_option (\<lambda>(r1, w1). (status r1, available r1,
        checkDomain (answering_env scenario_registered) (js ''example.com'')
            (w1\<lparr>clock := clock w1 + 5000\<rparr>)
          = Some (r1\<lparr>fromCache := True\<rparr>, w1\<lparr>clock := clock w1 + 5000\<rparr>)))
     (checkDomain (answering_env scenario_registered) (js ''example.com'') example_world)
   = Some (Registered, JBool False, True)"
proof -
  let ?E = "answering_env scenario_registered"
  let ?d = "js ''example.com''"
  have miss: "fst (cache_get (normalized ?E ?d) example_world) = None"
    by (rule example_world_miss)
  have out: "fst (performWhoisLookup ?E (normalized ?E ?d) example_world)
     = Inr \<lparr>lookup_available = False, lookup_data = Serialized scenario_registered\<rparr>"
    unfolding normalized_answering by (rule registered_lookup)
  from checkDomain_success_case [OF example_world_at_rest miss out]
  obtain r1 w1 where run: "checkDomain ?E ?d example_world = Some (r1, w1)"
    and st: "status r1 = Registered" "available r1 = JBool False" "\<not> fromCache r1"
    by (simp add: fresh_result_def)
  have "checkDomain ?E ?d example_world = Some (r1, w1) \<and> status r1 \<noteq> Error"
    using run st by simp
  with C8_cache_hit_returns_capture [of example_world ?E ?d _ r1 w1]
  have "\<exists>item. cache w1 (normalized ?E ?d) = Some item
             \<and> (\<not> fromCache r1 \<longrightarrow> expiry item = clock w1 + cacheTTL ?E)
             \<and> (\<forall>w2. cache w2 (normalized ?E ?d) = Some item \<and> clock w2 \<le> expiry item
                   \<longrightarrow> checkDomain ?E ?d w2 = Some (r1\<lparr>fromCache := True\<rparr>, w2))"
    by blast
  then obtain item where item: "cache w1 (normalized ?E ?d) = Some item"
    and exp: "expiry item = clock w1 + cacheTTL ?E"
    and again: "\<And>w2. cache w2 (normalized ?E ?d) = Some item \<and> clock w2 \<le> expiry item
                   \<Longrightarrow> checkDomain ?E ?d w2 = Some (r1\<lparr>fromCache := True\<rparr>, w2)"
    using st(3) by blast
  have "cacheTTL ?E = 86400000" by (simp add: answering_env_def example_env_def)
  with exp item have "checkDomain ?E ?d (w1\<lparr>clock := clock w1 + 5000\<rparr>)
          = Some (r1\<lparr>fromCache := True\<rparr>, w1\<lparr>clock := clock w1 + 5000\<rparr>)"
    by (intro again) simp
  with run st show ?thesis by simp
qed

lemma started_append: "started (xs @ ys) = started xs @ started ys"
  by (induction xs rule: started.induct) simp_all

text \<open>
  Claim C10, as the code has it. \<open>checkDomain\<close> makes no test of the domain's syntax. For
  an input that fails \<open>isValidDomainName\<close> and has no live cache entry, with the
  scheduler at rest, it submits one task to the scheduler, which calls it, and issues
  one transport query for the normalised input; the result is an error exactly when
  that lookup throws.
\<close>

theorem C10_malformed_domain_is_looked_up:
  assumes "\<not> isValidDomainName d"
    and "at_rest (limiter w)"
    and "fst (cache_get (normalized E d) w) = None"
  shows "\<exists>r w'. checkDomain E d w = Some (r, w')
    \<and> submitted w' = submitted w + 1
    \<and> started (trace (limiter w')) = started (trace (limiter w)) @ [submitted w]
    \<and> whois_calls w' = whois_calls w @ [(normalized E d, lookup_config E (normalized E d))]
    \<and> (status r = Error \<longleftrightarrow> (\<exists>m. fst (performWhoisLookup E (normalized E d) w) = Inl m))"
proof (cases "fst (performWhoisLookup E (normalized E d) w)")
  case (Inl message)
  from checkDomain_error_case [OF assms(2,3) Inl] Inl show ?thesis
    by (cases message)
       (simp_all add: error_result_def lookup_world_def started_append settle_event_def)
next
  case (Inr result)
  from checkDomain_success_case [OF assms(2,3) Inr] Inr show ?thesis
    by (simp add: fresh_result_def lookup_world_def cache_set_def Let_def started_append
        settle_event_def)
qed

lemma malformed_example: "\<not> isValidDomainName (js ''-bad..name-'')"
  by (simp add: isValidDomainName_def js_def)

lemma normalized_malformed:
  "normalized (failing_env m) (js ''-bad..name-'') = js ''-bad..name-''"
  by (simp add: normalized_def failing_env_def example_env_def asciiLower_def trim_def
      isWhiteSpace_def js_def)

lemma no_match_lookup:
  "fst (performWhoisLookup (failing_env (js ''No match for domain''))
          (normalized (failing_env (js ''No match for domain'')) x) w)
     = Inr \<lparr>lookup_available = True, lookup_data = Falsy\<rparr>"
proof -
  let ?m = "js ''No match for domain''"
  let ?E = "failing_env ?m"
  have lower: "toLowerCase ?E ?m = js ''no match for domain''"
    by (simp add: failing_env_def example_env_def asciiLower_def js_def)
  have n: "isNotFoundError ?E ?m"
    unfolding isNotFoundError_def Let_def lower
    by (simp add: notFoundPatterns_def js_def)
  have f: "fst (whois ?E (clock w) (normalized ?E x) (lookup_config ?E (normalized ?E x)))
      = Inl ?m"
    by (simp add: failing_env_def example_env_def)
  from lookup_of_failure [OF f] n show ?thesis by simp
qed

theorem C10_malformed_domain_witness:
  "\<not> isValidDomainName (js ''-bad..name-'')
   \<and> at_rest (limiter example_world)
   \<and> fst (cache_get (normalized (failing_env (js ''No match for domain'')) (js ''-bad..name-''))
        example_world) = None
   \<and> map_option (\<lambda>(r, w'). (submitted w', started (trace (limiter w')), map fst (whois_calls w')))
        (checkDomain (failing_env (js ''No match for domain'')) (js ''-bad..name-'')
           example_world)
       = Some (1, [0], [js ''-bad..name-''])"
proof -
  let ?E = "failing_env (js ''No match for domain'')"
  have init: "submitted example_world = 0" "trace (limiter example_world) = []"
    "whois_calls example_world = []"
    by (simp_all add: example_world_def initial_world_def new_limiter_def)
  from C10_malformed_domain_is_looked_up
    [OF malformed_example example_world_at_rest example_world_miss, of ?E]
  have "map_option (\<lambda>(r, w'). (submitted w', started (trace (limiter w')),
          map fst (whois_calls w')))
        (checkDomain ?E (js ''-bad..name-'') example_world)
       = Some (1, [0], [js ''-bad..name-''])"
    unfolding init normalized_malformed by auto
  with malformed_example example_world_at_rest example_world_miss show ?thesis by simp
qed

theorem C10_malformed_domain_counterexample:
  "\<not> isValidDomainName (js ''-bad..name-'')
   \<and> map_option (\<lambda>(r, w'). (status r, available r, submitted w', map fst (whois_calls w')))
        (checkDomain (failing_env (js ''No match for domain'')) (js ''-bad..name-'')
           example_world)
       = Some (Available, JBool True, 1, [js ''-bad..name-''])"
proof -
  let ?E = "failing_env (js ''No match for domain'')"
  from checkDomain_success_case [OF example_world_at_rest example_world_miss no_match_lookup]
  have "map_option (\<lambda>(r, w'). (status r, available r, submitted w', map fst (whois_calls w')))
        (checkDomain ?E (js ''-bad..name-'') example_world)
       = Some (Available, JBool True, 1, [js ''-bad..name-''])"
    by (simp add: fresh_result_def lookup_world_def cache_set_def Let_def normalized_malformed
        example_world_def initial_world_def)
  with malformed_example show ?thesis by simp
qed

section \<open>Properties of the scheduler\<close>

lemma settled_tickets_append:
  "settled_tickets (xs @ ys) = settled_tickets xs @ settled_tickets ys"
  by (induction xs rule: settled_tickets.induct) simp_all

lemma added_append: "added (xs @ ys) = added xs @ added ys"
  by (induction xs rule: added.induct) simp_all

lemma serial_snoc:
  "serial (es @ [e]) \<longleftrightarrow> (if es = [] then is_call e else serial es \<and> may_follow (last es) e)"
proof (cases "es = []")
  case True
  then show ?thesis by (simp add: serial_def)
next
  case False
  then show ?thesis
    using successively_append_iff [of may_follow es "[e]"]
    by (auto simp: serial_def hd_append)
qed

lemma call_may_follow:
  "is_settling e \<or> is_sleep e \<Longrightarrow> may_follow e (Started t)"
  by (cases e) simp_all

lemma settle_event_simps:
  "is_settling (settle_event t outcome)"
  "may_follow (Started t) (settle_event t outcome)"
  "may_follow (settle_event t outcome) (SleepStarted d)"
  "started (settle_event t outcome # es) = started es"
  "settled_tickets (settle_event t outcome # es) = t # settled_tickets es"
  by (cases outcome; simp add: settle_event_def)+

lemma loop_head_fifo:
  "started (trace (loop_head L)) @ queue (loop_head L) = started (trace L) @ queue L"
  by (cases "queue L") (simp_all add: loop_head_def started_append)

lemma task_settled_eq:
  "task_settled outcome L =
     (case phase L of
        Running t \<Rightarrow>
          (if queue L \<noteq> []
           then L\<lparr>phase := Sleeping,
                  trace := trace L @ [settle_event t outcome, SleepStarted (delay L)]\<rparr>
           else loop_head (L\<lparr>trace := trace L @ [settle_event t outcome]\<rparr>))
      | _ \<Rightarrow> L)"
  by (cases "phase L") (simp_all add: task_settled_def settle_event_def Let_def)

lemma rl_step_fifo:
  "started (trace (rl_step L x)) @ queue (rl_step L x) = started (trace L) @ queue L @ added [x]"
proof (cases x)
  case (Add t)
  then show ?thesis
    using loop_head_fifo [of "L\<lparr>queue := queue L @ [t], processing := True\<rparr>"]
    by (simp add: add_def processQueue_def)
next
  case (Settled outcome)
  show ?thesis
  proof (cases "phase L")
    case (Running t)
    then show ?thesis
      using Settled loop_head_fifo [of "L\<lparr>trace := trace L @ [settle_event t outcome]\<rparr>"]
      by (simp add: task_settled_eq started_append settle_event_simps)
  qed (simp_all add: Settled task_settled_eq)
next
  case TimerFired
  then show ?thesis
    using loop_head_fifo [of L] by (cases "phase L") (simp_all add: timer_fired_def)
qed

lemma rl_run_fifo:
  "started (trace (rl_run L inputs)) @ queue (rl_run L inputs)
     = started (trace L) @ queue L @ added inputs"
proof (induction inputs arbitrary: L)
  case Nil
  show ?case by (simp add: rl_run_def)
next
  case (Cons x xs)
  have "rl_run L (x # xs) = rl_run (rl_step L x) xs" by (simp add: rl_run_def)
  then show ?case
    using Cons.IH [of "rl_step L x"] rl_step_fifo [of L x] added_append [of "[x]" xs]
    by simp
qed

lemma sched_inv_new: "sched_inv (new_limiter d)"
  by (simp add: sched_inv_def new_limiter_def serial_def)

lemma sched_inv_loop_head:
  assumes "processing L" and "serial (trace L)"
    and "trace L = [] \<or> is_settling (last (trace L)) \<or> (is_sleep (last (trace L)) \<and> queue L \<noteq> [])"
    and "started (trace L) = settled_tickets (trace L)"
  shows "sched_inv (loop_head L)"
proof (cases "queue L")
  case Nil
  with assms show ?thesis by (auto simp: sched_inv_def loop_head_def)
next
  case (Cons t rest)
  have "serial (trace L @ [Started t])"
    using assms(2,3) by (auto simp: serial_snoc call_may_follow)
  with Cons assms(1,4) show ?thesis
    by (simp add: sched_inv_def loop_head_def started_append settled_tickets_append)
qed

lemma sched_inv_step:
  assumes "sched_inv L"
  shows "sched_inv (rl_step L x)"
proof (cases x)
  case (Add t)
  show ?thesis
  proof (cases "processing L")
    case True
    with assms Add show ?thesis
      by (auto simp: sched_inv_def add_def processQueue_def split: phase.splits)
  next
    case False
    with assms have idle: "phase L = Idle" "queue L = []" by (auto simp: sched_inv_def)
    have "sched_inv (loop_head (L\<lparr>queue := [t], processing := True\<rparr>))"
      using assms idle by (intro sched_inv_loop_head) (auto simp: sched_inv_def)
    with False idle Add show ?thesis by (simp add: add_def processQueue_def)
  qed
next
  case (Settled outcome)
  show ?thesis
  proof (cases "phase L")
    case Idle
    with assms Settled show ?thesis by (simp add: task_settled_eq)
  next
    case Sleeping
    with assms Settled show ?thesis by (simp add: task_settled_eq)
  next
    case (Running t)
    from assms Running have tr: "trace L \<noteq> []" "last (trace L) = Started t"
      and ser: "serial (trace L)" and proc: "processing L"
      and st: "started (trace L) = settled_tickets (trace L) @ [t]"
      by (auto simp: sched_inv_def)
    have ser1: "serial (trace L @ [settle_event t outcome])"
      using tr ser by (simp add: serial_snoc settle_event_simps)
    show ?thesis
    proof (cases "queue L = []")
      case True
      have "sched_inv (loop_head (L\<lparr>trace := trace L @ [settle_event t outcome]\<rparr>))"
        using proc ser1 st
        by (intro sched_inv_loop_head)
           (simp_all add: settle_event_simps started_append settled_tickets_append)
      with True Running Settled show ?thesis by (simp add: task_settled_eq)
    next
      case False
      have "serial ((trace L @ [settle_event t outcome]) @ [SleepStarted (delay L)])"
        using ser1 by (subst serial_snoc) (simp add: settle_event_simps)
      with False Running Settled proc st show ?thesis
        by (simp add: task_settled_eq sched_inv_def started_append settled_tickets_append
            settle_event_simps)
    qed
  qed
next
  case TimerFired
  show ?thesis
  proof (cases "phase L")
    case Sleeping
    have "sched_inv (loop_head L)"
      using assms Sleeping by (intro sched_inv_loop_head) (auto simp: sched_inv_def)
    with Sleeping TimerFired show ?thesis by (simp add: timer_fired_def)
  qed (use assms TimerFired in \<open>simp_all add: timer_fired_def\<close>)
qed

lemma sched_inv_run: "sched_inv L \<Longrightarrow> sched_inv (rl_run L inputs)"
proof (induction inputs arbitrary: L)
  case Nil
  then show ?case by (simp add: rl_run_def)
next
  case (Cons x xs)
  have "rl_run L (x # xs) = rl_run (rl_step L x) xs" by (simp add: rl_run_def)
  with Cons.IH [OF sched_inv_step [OF Cons.prems]] show ?case by simp
qed

lemma reject_step:
  assumes "phase L = Running t"
  shows "queue (rl_step L (Settled (Inl e))) = queue L
    \<and> trace (rl_step L (Settled (Inl e)))
        = trace L @ Rejected t e # (if queue L = [] then [] else [SleepStarted (delay L)])"
  using assms by (simp add: task_settled_eq loop_head_def settle_event_def)

lemma drain:
  assumes "phase L = Running t" and "length outcomes = length (queue L) + 1"
  shows "rl_run L (drain_inputs outcomes) =
     L\<lparr>queue := [], processing := False, phase := Idle,
       trace := trace L @ drain_trace (delay L) (t # queue L) outcomes\<rparr>"
  using assms
proof (induction "queue L" arbitrary: L t outcomes)
  case Nil
  then obtain outcome where o: "outcomes = [outcome]"
    by (cases outcomes) auto
  from Nil show ?case unfolding o
    by (simp add: rl_run_def task_settled_eq loop_head_def)
next
  case (Cons t' ts)
  from Cons.prems(2) Cons.hyps(2) [symmetric]
  obtain outcome rest where o: "outcomes = outcome # rest" and len: "length rest = length ts + 1"
    by (cases outcomes) auto
  then obtain o2 rest2 where rest: "rest = o2 # rest2" by (cases rest) auto
  let ?L2 = "L\<lparr>queue := ts, phase := Running t',
      trace := trace L @ [settle_event t outcome, SleepStarted (delay L), Started t']\<rparr>"
  have two: "rl_step (rl_step L (Settled outcome)) TimerFired = ?L2"
    using Cons.prems(1) Cons.hyps(2) [symmetric]
    by (simp add: task_settled_eq timer_fired_def loop_head_def)
  have "rl_run L (drain_inputs outcomes) = rl_run ?L2 (drain_inputs rest)"
    unfolding o rest using two by (simp add: rl_run_def)
  also have "\<dots> = ?L2\<lparr>queue := [], processing := False, phase := Idle,
       trace := trace ?L2 @ drain_trace (delay ?L2) (t' # queue ?L2) rest\<rparr>"
    using len by (intro Cons.hyps(1)) simp_all
  finally show ?case unfolding o using Cons.hyps(2) [symmetric] by simp
qed

text \<open>
  Claim C6. Let the scheduler, as constructed, receive any sequence of inputs: tasks
  submitted by \<open>add\<close>, settlings of the running task, timers firing. Then:
  the tasks called so far, followed by the tasks still queued, are the tasks submitted,
  in submission order (strict FIFO); the trace is serial, so a task is called only
  after the one called before it has settled (one at a time); every task called has
  been settled once, in order, but the one that runs; a sleep is in progress only while
  a task waits in the queue, and at rest the queue is empty and \<open>processing\<close> is false.
  When the running task throws, the scheduler rejects that task's promise with the
  error and no other, and leaves the queue as it is, starting the sleep only if a
  task waits. And whatever the outcomes of the running task and of the queued tasks,
  failures or results, letting them finish one after the other makes the scheduler
  call every queued task in order, settle each with its own outcome, sleep between one
  task and the next only, and come to rest after the last with no sleep.
\<close>

theorem C6_scheduler_is_serial_and_fifo:
  assumes "L = rl_run (new_limiter delayMs) inputs"
  shows "started (trace L) @ queue L = added inputs
    \<and> serial (trace L)
    \<and> started (trace L)
         = settled_tickets (trace L) @ (case phase L of Running t \<Rightarrow> [t] | _ \<Rightarrow> [])
    \<and> (phase L = Sleeping \<longrightarrow> queue L \<noteq> [])
    \<and> (phase L = Idle \<longrightarrow> queue L = [] \<and> \<not> processing L)
    \<and> (\<forall>t e. phase L = Running t
          \<longrightarrow> queue (rl_step L (Settled (Inl e))) = queue L
            \<and> trace (rl_step L (Settled (Inl e)))
                = trace L @ Rejected t e #
                    (if queue L = [] then [] else [SleepStarted (delay L)]))
    \<and> (\<forall>t outcomes. phase L = Running t \<and> length outcomes = length (queue L) + 1
          \<longrightarrow> rl_run L (drain_inputs outcomes)
                = L\<lparr>queue := [], processing := False, phase := Idle,
                    trace := trace L @ drain_trace (delay L) (t # queue L) outcomes\<rparr>)"
proof -
  have inv: "sched_inv L"
    unfolding assms by (intro sched_inv_run sched_inv_new)
  have fifo: "started (trace L) @ queue L = added inputs"
    unfolding assms using rl_run_fifo [of "new_limiter delayMs" inputs]
    by (simp add: new_limiter_def)
  have rej: "\<forall>t e. phase L = Running t
          \<longrightarrow> queue (rl_step L (Settled (Inl e))) = queue L
            \<and> trace (rl_step L (Settled (Inl e)))
                = trace L @ Rejected t e #
                    (if queue L = [] then [] else [SleepStarted (delay L)])"
    using reject_step [of L] by blast
  have live: "\<forall>t outcomes. phase L = Running t \<and> length outcomes = length (queue L) + 1
          \<longrightarrow> rl_run L (drain_inputs outcomes)
                = L\<lparr>queue := [], processing := False, phase := Idle,
                    trace := trace L @ drain_trace (delay L) (t # queue L) outcomes\<rparr>"
    using drain [of L] by blast
  from inv have "serial (trace L)"
    and "started (trace L)
         = settled_tickets (trace L) @ (case phase L of Running t \<Rightarrow> [t] | _ \<Rightarrow> [])"
    and "phase L = Sleeping \<longrightarrow> queue L \<noteq> []"
    and "phase L = Idle \<longrightarrow> queue L = [] \<and> \<not> processing L"
    by (simp_all add: sched_inv_def)
  with fifo rej live show ?thesis by blast
qed

lemma three_submitted:
  "rl_run (new_limiter 2000) [Add 4, Add 5, Add 6] =
     \<lparr>delay = 2000, queue = [5, 6], processing = True, phase = Running 4,
      trace = [Started 4]\<rparr>"
  by (simp add: rl_run_def new_limiter_def add_def processQueue_def loop_head_def)

theorem C6_scheduler_witness:
  "phase (rl_run (new_limiter 2000) [Add 4, Add 5, Add 6] :: nat limiter) = Running 4
   \<and> added [Add 4, Add 5, Add 6 :: nat input] = [4, 5, 6]
   \<and> trace (rl_step (rl_run (new_limiter 2000) [Add 4, Add 5, Add 6] :: nat limiter)
        (Settled (Inl (js ''boom''))))
       = [Started 4, Rejected 4 (js ''boom''), SleepStarted 2000]
   \<and> rl_run (rl_run (new_limiter 2000) [Add 4, Add 5, Add 6])
        (drain_inputs [Inl (js ''boom''), Inr 7, Inr (8 :: nat)])
       = \<lparr>delay = 2000, queue = [], processing = False, phase = Idle,
          trace = [Started 4, Rejected 4 (js ''boom''), SleepStarted 2000,
                   Started 5, Resolved 5 7, SleepStarted 2000,
                   Started 6, Resolved 6 8]\<rparr>"
proof -
  let ?L = "rl_run (new_limiter 2000) [Add 4, Add 5, Add 6] :: nat limiter"
  note claim = C6_scheduler_is_serial_and_fifo [of ?L 2000 "[Add 4, Add 5, Add 6]", OF refl]
  have ph: "phase ?L = Running 4" and q: "queue ?L = [5, 6]" and tr: "trace ?L = [Started 4]"
    and d: "delay ?L = 2000"
    by (simp_all add: three_submitted)
  have r: "trace (rl_step ?L (Settled (Inl (js ''boom''))))
       = [Started 4, Rejected 4 (js ''boom''), SleepStarted 2000]"
    using claim ph q tr d by simp
  from claim have "\<forall>t outcomes. phase ?L = Running t \<and> length outcomes = length (queue ?L) + 1
          \<longrightarrow> rl_run ?L (drain_inputs outcomes)
                = ?L\<lparr>queue := [], processing := False, phase := Idle,
                    trace := trace ?L @ drain_trace (delay ?L) (t # queue ?L) outcomes\<rparr>"
    by (elim conjE)
  from this [rule_format, of 4 "[Inl (js ''boom''), Inr 7, Inr 8]"]
  have "rl_run ?L (drain_inputs [Inl (js ''boom''), Inr 7, Inr 8])
      = ?L\<lparr>queue := [], processing := False, phase := Idle,
            trace := trace ?L @ drain_trace (delay ?L) (4 # queue ?L)
               [Inl (js ''boom''), Inr 7, Inr 8]\<rparr>"
    using ph q by simp
  then have "rl_run ?L (drain_inputs [Inl (js ''boom''), Inr 7, Inr 8])
       = \<lparr>delay = 2000, queue = [], processing = False, phase = Idle,
          trace = [Started 4, Rejected 4 (js ''boom''), SleepStarted 2000,
                   Started 5, Resolved 5 7, SleepStarted 2000,
                   Started 6, Resolved 6 8]\<rparr>"
    by (simp add: three_submitted settle_event_def)
  with ph r show ?thesis by simp
qed

section \<open>Properties of the batch\<close>

lemma reports_from_nth:
  "length rs = length ds \<Longrightarrow>
   reports_from E n i ds rs =
     map (\<lambda>k. \<lparr>current = i + k + 1, total = n, percentage = toFixed2 E (i + k + 1) n,
                progress_domain = ds ! k, progress_result = rs ! k\<rparr>) [0..<length ds]"
proof (induction ds arbitrary: rs i)
  case Nil
  then show ?case by simp
next
  case (Cons d ds)
  then obtain r rs' where rs: "rs = r # rs'" and len: "length rs' = length ds"
    by (cases rs) auto
  show ?case unfolding rs
    using Cons.IH [OF len, of "i + 1"] by (simp add: map_upt_Suc del: upt_Suc)
qed

lemma progress_reports_eq:
  "length rs = length ds \<Longrightarrow> progress_reports E ds rs = reports_from E (length ds) 0 ds rs"
  by (simp add: progress_reports_def reports_from_nth)

lemma loop_refines:
  "checkMultipleDomains_loop E onProgress n ds i results w obs =
     (case resolve_in_order E ds w of
        None \<Rightarrow> None
      | Some (rs, w') \<Rightarrow>
          Some (results @ rs, w',
                foldl (\<lambda>acc p. case onProgress of None \<Rightarrow> acc | Some callback \<Rightarrow> callback p acc)
                  obs (reports_from E n i ds rs)))"
proof (induction ds arbitrary: i results w obs)
  case Nil
  show ?case by simp
next
  case (Cons d ds)
  show ?case
  proof (cases "checkDomain E d w")
    case None
    then show ?thesis by simp
  next
    case (Some a)
    obtain r w1 where a: "a = (r, w1)" by (cases a)
    show ?thesis
    proof (cases "resolve_in_order E ds w1")
      case None
      with Some a Cons.IH show ?thesis by (simp add: Let_def)
    next
      case (Some b)
      obtain rs w2 where b: "b = (rs, w2)" by (cases b)
      from \<open>checkDomain E d w = Some a\<close> a Some b Cons.IH show ?thesis
        by (cases onProgress) (simp_all add: Let_def)
    qed
  qed
qed

lemma resolve_in_order_total:
  "at_rest (limiter w) \<Longrightarrow>
   \<exists>rs w'. resolve_in_order E ds w = Some (rs, w') \<and> length rs = length ds"
proof (induction ds arbitrary: w)
  case Nil
  show ?case by simp
next
  case (Cons d ds)
  from checkDomain_returns [OF Cons.prems] obtain r w1
    where run: "checkDomain E d w = Some (r, w1)" by blast
  from checkDomain_keeps_rest [OF Cons.prems run] have "at_rest (limiter w1)" .
  from Cons.IH [OF this] obtain rs w2
    where "resolve_in_order E ds w1 = Some (rs, w2)" "length rs = length ds" by blast
  with run show ?case by simp
qed

lemma resolve_in_order_chain:
  "resolve_in_order E ds w = Some (rs, w') \<Longrightarrow>
   \<exists>ws. length ws = length ds + 1 \<and> ws ! 0 = w \<and> ws ! length ds = w'
      \<and> (\<forall>i < length ds. checkDomain E (ds ! i) (ws ! i) = Some (rs ! i, ws ! (i + 1)))"
proof (induction ds arbitrary: w rs)
  case Nil
  then show ?case by (auto intro!: exI [of _ "[w]"])
next
  case (Cons d ds)
  from Cons.prems obtain r w1 rs1 where run: "checkDomain E d w = Some (r, w1)"
    and rest: "resolve_in_order E ds w1 = Some (rs1, w')" and rs: "rs = r # rs1"
    by (auto split: option.splits)
  from Cons.IH [OF rest] obtain ws where ws: "length ws = length ds + 1" "ws ! 0 = w1"
    "ws ! length ds = w'"
    "\<forall>i < length ds. checkDomain E (ds ! i) (ws ! i) = Some (rs1 ! i, ws ! (i + 1))"
    by blast
  have "\<forall>i < length (d # ds).
      checkDomain E ((d # ds) ! i) ((w # ws) ! i) = Some (rs ! i, (w # ws) ! (i + 1))"
  proof (intro allI impI)
    fix i assume "i < length (d # ds)"
    then show "checkDomain E ((d # ds) ! i) ((w # ws) ! i) = Some (rs ! i, (w # ws) ! (i + 1))"
      using run ws(2,4) rs by (cases i) simp_all
  qed
  with ws(1,3) show ?case by (intro exI [of _ "w # ws"]) simp
qed

text \<open>
  Claim C7. With the scheduler at rest, \<open>checkMultipleDomains\<close>, given a callback,
  returns for every list of domains: its results are those of resolving the domains
  one after the other in input order, each call of \<open>checkDomain\<close> starting in the state
  the previous one left; there is one result per domain, at the domain's index; the
  callback has been applied once per domain, in order, to the report holding the
  1-based index, the length of the list, the domain as given and its result. For the
  empty list the result is the empty list, the state is untouched and the callback
  is not applied.
\<close>

theorem C7_batch_is_sequential:
  assumes "at_rest (limiter w)"
  shows "(\<exists>results w'.
        checkMultipleDomains E domains (Some onProgress) w obs
          = Some (results, w',
                  foldl (\<lambda>acc p. onProgress p acc) obs (progress_reports E domains results))
        \<and> resolve_in_order E domains w = Some (results, w')
        \<and> length results = length domains
        \<and> (\<exists>ws. length ws = length domains + 1 \<and> ws ! 0 = w \<and> ws ! length domains = w'
              \<and> (\<forall>i < length domains.
                    checkDomain E (domains ! i) (ws ! i) = Some (results ! i, ws ! (i + 1)))))
    \<and> checkMultipleDomains E [] (Some onProgress) w obs = Some ([], w, obs)"
proof -
  from resolve_in_order_total [OF assms, of E domains] obtain rs w'
    where seq: "resolve_in_order E domains w = Some (rs, w')" and len: "length rs = length domains"
    by blast
  have "checkMultipleDomains E domains (Some onProgress) w obs
          = Some (rs, w', foldl (\<lambda>acc p. onProgress p acc) obs (progress_reports E domains rs))"
    using seq by (simp add: checkMultipleDomains_def loop_refines progress_reports_eq [OF len])
  moreover have "checkMultipleDomains E [] (Some onProgress) w obs = Some ([], w, obs)"
    by (simp add: checkMultipleDomains_def)
  ultimately show ?thesis
    using seq len resolve_in_order_chain [OF seq] by blast
qed

theorem C7_batch_witness:
  "at_rest (limiter example_world)
   \<and> map_option (\<lambda>(rs, w', seen). (length rs, seen))
       (checkMultipleDomains (failing_env (js ''connect ECONNREFUSED''))
          [js ''example.com'', js ''Shop.APP'']
          (Some (\<lambda>p seen. seen @ [(current p, total p, progress_domain p)]))
          example_world [])
     = Some (2, [(1, 2, js ''example.com''), (2, 2, js ''Shop.APP'')])
   \<and> checkMultipleDomains (failing_env (js ''connect ECONNREFUSED'')) []
          (Some (\<lambda>p seen. seen @ [(current p, total p, progress_domain p)]))
          example_world []
     = Some ([], example_world, [])"
proof -
  let ?E = "failing_env (js ''connect ECONNREFUSED'')"
  let ?cb = "\<lambda>p seen. seen @ [(current p, total p, progress_domain p)]"
  let ?ds = "[js ''example.com'', js ''Shop.APP'']"
  note claim = C7_batch_is_sequential [OF example_world_at_rest, of ?E ?ds ?cb "[]"]
  from claim obtain results w' where
    run: "checkMultipleDomains ?E ?ds (Some ?cb) example_world []
          = Some (results, w', foldl (\<lambda>acc p. ?cb p acc) [] (progress_reports ?E ?ds results))"
    and len: "length results = length ?ds"
    by blast
  have "foldl (\<lambda>acc p. ?cb p acc) [] (progress_reports ?E ?ds results)
      = [(1, 2, js ''example.com''), (2, 2, js ''Shop.APP'')]"
    by (simp add: progress_reports_def upt_rec)
  with run len claim example_world_at_rest show ?thesis by simp
qed

section \<open>Consistency of results\<close>

lemma consistent_fromCache: "consistent (r\<lparr>fromCache := b\<rparr>) = consistent r"
  by (simp add: consistent_def)

lemma consistent_fresh: "consistent (fresh_result E nd a w w')"
  by (simp add: consistent_def fresh_result_def)

lemma consistent_error: "consistent (error_result E nd m w w')"
  by (simp add: consistent_def error_result_def)

lemma consistent_godaddy_error: "consistent (godaddy_error E nd m elapsed now)"
  by (simp add: consistent_def godaddy_error_def)

lemma cache_consistent_remove:
  "cache_consistent c \<Longrightarrow> cache_consistent (c(k := None))"
  by (simp add: cache_consistent_def)

lemma cache_consistent_store:
  "cache_consistent c \<Longrightarrow> consistent r \<Longrightarrow>
   cache_consistent (c(k \<mapsto> \<lparr>entry_value = r, expiry = e, createdAt = t\<rparr>))"
  by (simp add: cache_consistent_def)

lemma cache_get_consistent:
  assumes "cache_consistent (cache w)" and "cache_get k w = (found, w1)"
  shows "cache_consistent (cache w1) \<and> (\<forall>c. found = Some c \<longrightarrow> consistent c)
    \<and> (found = None \<longrightarrow> w1 = w\<lparr>cache := (cache w)(k := None)\<rparr>)
    \<and> (found \<noteq> None \<longrightarrow> w1 = w)"
proof (cases found)
  case None
  with assms(2) have "fst (cache_get k w) = None" by simp
  from cache_get_miss [OF this] assms None show ?thesis
    by (simp add: cache_consistent_remove)
next
  case (Some c)
  with assms show ?thesis
    by (auto simp: cache_get_def cache_consistent_def split: option.splits if_splits)
qed

lemma whois_consistent:
  assumes "cache_consistent (cache w)" and "checkDomain E d w = Some (r, w')"
  shows "consistent r \<and> cache_consistent (cache w')"
proof (cases "fst (cache_get (normalized E d) w)")
  case (Some c)
  obtain w1 where get: "cache_get (normalized E d) w = (Some c, w1)"
    using Some by (cases "cache_get (normalized E d) w") simp
  from cache_get_consistent [OF assms(1) get] have "consistent c" "w1 = w" by simp_all
  with get assms show ?thesis
    by (auto simp: checkDomain_def normalized_def [symmetric] Let_def consistent_fromCache)
next
  case None
  have rest: "at_rest (limiter w)"
    using checkDomain_busy [OF _ None] assms(2) by fastforce
  have removed: "cache_consistent ((cache w)(normalized E d := None))"
    using assms(1) by (rule cache_consistent_remove)
  show ?thesis
  proof (cases "fst (performWhoisLookup E (normalized E d) w)")
    case (Inl message)
    from checkDomain_error_case [OF rest None Inl] assms(2) removed show ?thesis
      by (auto simp: consistent_error lookup_world_def)
  next
    case (Inr result)
    let ?lw = "lookup_world E (normalized E d) w"
    from checkDomain_success_case [OF rest None Inr] assms(2)
    have r: "r = fresh_result E (normalized E d) (lookup_available result) w ?lw"
      and w': "w' = cache_set E (normalized E d) r ?lw"
      by simp_all
    have "consistent r" unfolding r by (rule consistent_fresh)
    moreover have "cache w' = (cache w)(normalized E d \<mapsto>
        \<lparr>entry_value = r, expiry = clock ?lw + cacheTTL E, createdAt = clock ?lw\<rparr>)"
      unfolding w' by (simp add: cache_set_def Let_def lookup_world_def)
    ultimately show ?thesis
      using cache_consistent_store [OF assms(1)] by simp
  qed
qed

lemma godaddy_consistent:
  assumes "cache_consistent (cache w)" and "godaddy_checkDomain E d w = (r, w')"
    and "boolean_flags E"
  shows "consistent r \<and> cache_consistent (cache w')"
proof -
  obtain found w1 where get: "cache_get (trim (toLowerCase E d)) w = (found, w1)"
    by (cases "cache_get (trim (toLowerCase E d)) w")
  note g = cache_get_consistent [OF assms(1) get]
  show ?thesis
  proof (cases found)
    case (Some c)
    with g get assms(2) show ?thesis
      by (auto simp: godaddy_checkDomain_def Let_def consistent_fromCache)
  next
    case None
    obtain reply took where call: "axios_get E (clock w1) (trim (toLowerCase E d)) = (reply, took)"
      by (cases "axios_get E (clock w1) (trim (toLowerCase E d))")
    from g have c1: "cache_consistent (cache w1)" by simp
    show ?thesis
    proof (cases reply)
      case (ApiOk payload)
      from assms(3) call ApiOk obtain b where "api_available payload = JBool b"
        unfolding boolean_flags_def by blast
      then have "consistent \<lparr>domain = nd, available = api_available payload,
          status = (if truthy (api_available payload) then Available else Registered),
          error = None, responseTime = e, fromCache = False, checkedAt = t,
          provider = p, pricing = q\<rparr>" for nd e t p q
        by (simp add: consistent_def)
      with None get call ApiOk assms(2) c1 show ?thesis
        by (auto simp: godaddy_checkDomain_def Let_def cache_set_def
            intro!: cache_consistent_store)
    next
      case (ApiHttpError httpStatus message)
      with None get call assms(2) c1 show ?thesis
        by (auto simp: godaddy_checkDomain_def Let_def consistent_godaddy_error)
    next
      case (ApiFailure message)
      with None get call assms(2) c1 show ?thesis
        by (auto simp: godaddy_checkDomain_def Let_def consistent_godaddy_error)
    qed
  qed
qed

lemma serve_consistent:
  assumes "cache_consistent (cache w)" and "serve E q w = (rs, w')"
    and "boolean_flags E"
  shows "(\<forall>r \<in> set rs. consistent r) \<and> cache_consistent (cache w')"
proof (cases q)
  case (WhoisCheck d)
  show ?thesis
  proof (cases "checkDomain E d w")
    case None
    with WhoisCheck assms show ?thesis by auto
  next
    case (Some a)
    obtain r w1 where a: "a = (r, w1)" by (cases a)
    from whois_consistent [OF assms(1) Some [unfolded a]] WhoisCheck Some a assms(2)
    show ?thesis by auto
  qed
next
  case (ApiCheck d)
  obtain r w1 where run: "godaddy_checkDomain E d w = (r, w1)"
    by (cases "godaddy_checkDomain E d w")
  from godaddy_consistent [OF assms(1) run assms(3)] ApiCheck run assms(2)
  show ?thesis by auto
next
  case ClearCache
  with assms show ?thesis by (auto simp: cache_clear_def cache_consistent_def)
next
  case SweepCache
  with assms show ?thesis
    by (auto simp: cleanExpired_def cache_consistent_def Let_def split: option.splits if_splits)
next
  case (TimePasses dt)
  with assms show ?thesis by auto
qed

lemma session_consistent:
  "boolean_flags E \<Longrightarrow> cache_consistent (cache w) \<Longrightarrow> session E qs w = (rs, w') \<Longrightarrow>
   (\<forall>r \<in> set rs. consistent r) \<and> cache_consistent (cache w')"
proof (induction qs arbitrary: w rs w')
  case Nil
  then show ?case by simp
next
  case (Cons q qs)
  obtain rs1 w1 where one: "serve E q w = (rs1, w1)" by (cases "serve E q w")
  obtain rs2 w2 where more: "session E qs w1 = (rs2, w2)" by (cases "session E qs w1")
  from serve_consistent [OF Cons.prems(2) one Cons.prems(1)]
  have c1: "\<forall>r \<in> set rs1. consistent r" "cache_consistent (cache w1)" by simp_all
  from Cons.IH [OF Cons.prems(1) c1(2) more]
  have c2: "\<forall>r \<in> set rs2. consistent r" "cache_consistent (cache w2)" by simp_all
  from Cons.prems(3) one more have "rs = rs1 @ rs2" "w' = w2" by simp_all
  with c1 c2 show ?case by auto
qed

text \<open>
  Claim C9, as the code has it. The registrar-API service copies the flag of the
  payload into the result as it comes and derives \<open>status\<close> from whether it is truthy, so
  the claim holds where the API keeps to its interface: every payload carries a boolean
  flag. Under that condition, every result returned in a session of the two services,
  started with an empty cache (whatever else the transports answer, whether the result
  is fresh, an error or a cached copy, and whatever clearing, sweeping and waiting
  happens in between), is consistent: \<open>status = available\<close> exactly when
  \<open>available = true\<close>, \<open>status = registered\<close> exactly when \<open>available = false\<close>, and
  \<open>available = null\<close> only with \<open>status = error\<close>. Call by call: from a cache of
  consistent results, the WHOIS service (under no condition on the API) and the
  registrar-API service return a consistent result and leave a cache of consistent
  results.
\<close>

theorem C9_results_are_consistent:
  assumes "boolean_flags E"
  shows "(\<forall>r \<in> set (fst (session E requests (initial_world now delayMs))). consistent r)
   \<and> (cache_consistent (cache w) \<and> godaddy_checkDomain E d w = (r2, w2)
        \<longrightarrow> consistent r2 \<and> cache_consistent (cache w2))
   \<and> (\<forall>E'. cache_consistent (cache w) \<and> checkDomain E' d w = Some (r1, w1)
        \<longrightarrow> consistent r1 \<and> cache_consistent (cache w1))"
proof -
  have "cache_consistent (cache (initial_world now delayMs))"
    by (simp add: initial_world_def cache_consistent_def)
  from session_consistent [OF assms this, of requests]
  have "\<forall>r \<in> set (fst (session E requests (initial_world now delayMs))). consistent r"
    by (cases "session E requests (initial_world now delayMs)") simp
  moreover have "cache_consistent (cache w) \<and> godaddy_checkDomain E d w = (r2, w2)
        \<longrightarrow> consistent r2 \<and> cache_consistent (cache w2)"
    using godaddy_consistent [of w E d r2 w2] assms by blast
  moreover have "\<forall>E'. cache_consistent (cache w) \<and> checkDomain E' d w = Some (r1, w1)
        \<longrightarrow> consistent r1 \<and> cache_consistent (cache w1)"
    using whois_consistent [of w _ d r1 w1] by blast
  ultimately show ?thesis by blast
qed

lemma boolean_flags_example: "boolean_flags (failing_env m)"
  by (auto simp: boolean_flags_def failing_env_def example_env_def)

lemma refused_session:
  "map (\<lambda>r. (status r, available r, fromCache r, provider r))
     (fst (session (failing_env (js ''connect ECONNREFUSED''))
        [WhoisCheck (js ''example.com''), ApiCheck (js ''example.com''), TimePasses 5,
         WhoisCheck (js ''example.com'')]
        (initial_world 1000 2000)))
   = [(Error, JNull, False, None),
      (Available, JBool True, False, Some (js ''godaddy'')),
      (Available, JBool True, True, Some (js ''godaddy''))]"
proof -
  let ?E = "failing_env (js ''connect ECONNREFUSED'')"
  let ?d = "js ''example.com''"
  let ?w0 = "initial_world 1000 2000"
  have n: "trim (toLowerCase ?E ?d) = ?d"
    using normalized_example_com [of "js ''connect ECONNREFUSED''"] by (simp add: normalized_def)
  have rest: "at_rest (limiter ?w0)" and miss: "fst (cache_get (normalized ?E ?d) ?w0) = None"
    using example_world_at_rest example_world_miss by (simp_all add: example_world_def)
  let ?w1 = "lookup_world ?E (normalized ?E ?d) ?w0"
  have s1: "serve ?E (WhoisCheck ?d) ?w0
      = ([error_result ?E (normalized ?E ?d) (js ''connect ECONNREFUSED'') ?w0 ?w1], ?w1)"
    using checkDomain_error_case [OF rest miss refusing_lookup] by simp
  have c1: "cache ?w1 = Map.empty"
    by (simp add: lookup_world_def initial_world_def)
  obtain r2 w2 where s2: "godaddy_checkDomain ?E ?d ?w1 = (r2, w2)"
    by (cases "godaddy_checkDomain ?E ?d ?w1")
  have get: "cache_get ?d ?w1 = (None, ?w1)"
    by (simp add: cache_get_def c1)
  have call: "axios_get ?E t x = (ApiOk \<lparr>api_available = JBool True, api_price = None,
      api_currency = None, api_period = None\<rparr>, 80)" for t x
    by (simp add: failing_env_def example_env_def)
  have ttl: "cacheTTL ?E = 86400000"
    by (simp add: failing_env_def example_env_def)
  from s2 have r2: "status r2 = Available" "available r2 = JBool True" "fromCache r2 = False"
      "provider r2 = Some (js ''godaddy'')"
    and c2: "cache w2 ?d = Some \<lparr>entry_value = r2, expiry = clock w2 + 86400000,
        createdAt = clock w2\<rparr>"
    by (auto simp: godaddy_checkDomain_def n get call ttl Let_def cache_set_def)
  let ?w3 = "w2\<lparr>clock := clock w2 + 5\<rparr>"
  have s4: "checkDomain ?E ?d ?w3 = Some (r2\<lparr>fromCache := True\<rparr>, ?w3)"
    using checkDomain_hit [of ?w3 ?E ?d] c2
    by (simp add: normalized_example_com)
  show ?thesis
    using s1 s2 s4 r2 by (simp add: error_result_def)
qed

theorem C9_results_witness:
  "boolean_flags (failing_env (js ''connect ECONNREFUSED''))
   \<and> map (\<lambda>r. (status r, available r, fromCache r, provider r))
     (fst (session (failing_env (js ''connect ECONNREFUSED''))
        [WhoisCheck (js ''example.com''), ApiCheck (js ''example.com''), TimePasses 5,
         WhoisCheck (js ''example.com'')]
        (initial_world 1000 2000)))
   = [(Error, JNull, False, None),
      (Available, JBool True, False, Some (js ''godaddy'')),
      (Available, JBool True, True, Some (js ''godaddy''))]
   \<and> list_all consistent
     (fst (session (failing_env (js ''connect ECONNREFUSED''))
        [WhoisCheck (js ''example.com''), ApiCheck (js ''example.com''), TimePasses 5,
         WhoisCheck (js ''example.com'')]
        (initial_world 1000 2000)))"
proof -
  let ?rs = "fst (session (failing_env (js ''connect ECONNREFUSED''))
        [WhoisCheck (js ''example.com''), ApiCheck (js ''example.com''), TimePasses 5,
         WhoisCheck (js ''example.com'')]
        (initial_world 1000 2000))"
  have "\<forall>r \<in> set ?rs. consistent r"
    by (rule C9_results_are_consistent [OF boolean_flags_example, THEN conjunct1])
  then have "list_all consistent ?rs" by (simp only: list_all_iff)
  with refused_session boolean_flags_example show ?thesis by blast
qed

theorem C9_missing_flag_counterexample:
  "map (\<lambda>r. (status r, available r, fromCache r))
     (fst (session flagless_env
        [ApiCheck (js ''example.com''), WhoisCheck (js ''example.com'')]
        (initial_world 1000 2000)))
   = [(Registered, JUndefined, False), (Registered, JUndefined, True)]
   \<and> \<not> list_all consistent
     (fst (session flagless_env
        [ApiCheck (js ''example.com''), WhoisCheck (js ''example.com'')]
        (initial_world 1000 2000)))"
proof -
  let ?E = "flagless_env"
  let ?d = "js ''example.com''"
  let ?w0 = "initial_world 1000 2000"
  have n: "trim (toLowerCase ?E ?d) = ?d"
    by (simp add: flagless_env_def example_env_def asciiLower_def trim_def isWhiteSpace_def
        js_def)
  have get: "cache_get ?d ?w0 = (None, ?w0)"
    by (simp add: cache_get_def initial_world_def)
  have call: "axios_get ?E t x = (ApiOk \<lparr>api_available = JUndefined, api_price = None,
      api_currency = None, api_period = None\<rparr>, 80)" for t x
    by (simp add: flagless_env_def example_env_def)
  have ttl: "cacheTTL ?E = 86400000"
    by (simp add: flagless_env_def example_env_def)
  obtain r w1 where s1: "godaddy_checkDomain ?E ?d ?w0 = (r, w1)"
    by (cases "godaddy_checkDomain ?E ?d ?w0")
  from s1 have r: "status r = Registered" "available r = JUndefined" "fromCache r = False"
    and c: "cache w1 ?d = Some \<lparr>entry_value = r, expiry = clock w1 + 86400000,
        createdAt = clock w1\<rparr>"
    by (auto simp: godaddy_checkDomain_def n get call ttl Let_def cache_set_def)
  have s2: "checkDomain ?E ?d w1 = Some (r\<lparr>fromCache := True\<rparr>, w1)"
    using checkDomain_hit [of w1 ?E ?d] c by (simp add: normalized_def n)
  have results: "fst (session ?E [ApiCheck ?d, WhoisCheck ?d] ?w0) = [r, r\<lparr>fromCache := True\<rparr>]"
    using s1 s2 by simp
  have "\<not> consistent r" using r by (simp add: consistent_def)
  with results r show ?thesis by simp
qed

end
